theory Spec2Isabelle
  imports Main "HOL-Library.Sublist"
begin

section \<open>The progressive-disclosure form wizard (fastmcp_wizard)\<close>

text \<open>
  This theory embeds \<^verbatim>\<open>fastmcp_wizard/models.py\<close>, \<^verbatim>\<open>fastmcp_wizard/exceptions.py\<close> and
  \<^verbatim>\<open>fastmcp_wizard/manager.py\<close>. The engine (\<^verbatim>\<open>WizardManager.execute\<close>) talks to two
  collaborators through the FastMCP \<^verbatim>\<open>Context\<close> object: the session state store
  (\<^verbatim>\<open>ctx.get_state\<close>, \<^verbatim>\<open>ctx.set_state\<close>) and the ask-user transport (\<^verbatim>\<open>ctx.elicit\<close>).
  Neither is code of the package; both are modelled by their contract: the store is a
  key-value map with overwrite semantics, the transport hands out the user's replies
  one after the other.
\<close>

subsection \<open>Data model\<close>

text \<open>
  Answer values are arbitrary Python objects (\<^verbatim>\<open>Any\<close>): the type parameter \<open>'v\<close>.
  \<^verbatim>\<open>session_data\<close> is a \<^verbatim>\<open>dict\<close> from step ids to answers.
\<close>

type_synonym 'v answers = "string \<rightharpoonup> 'v"

text \<open>
  The \<^verbatim>\<open>schema\<close> field of a step (\<^verbatim>\<open>Optional[Type[Any]]\<close>): the engine never inspects it
  and hands it to \<^verbatim>\<open>ctx.elicit\<close> as \<^verbatim>\<open>response_type\<close>. The constructors are the shapes of
  \<^verbatim>\<open>examples/basic_wizard.py\<close>: \<^verbatim>\<open>str\<close>, a list of options, a list holding one list of
  options, a model class (by name), and \<^verbatim>\<open>None\<close>.
\<close>

datatype response_type =
    StrType
  | SingleSelect "string list"
  | MultiSelect "string list"
  | ModelClass string
  | NoneType

text \<open>\<^verbatim>\<open>models.py\<close>: the dataclass \<^verbatim>\<open>FormStep\<close>. A condition is a callable on the answers
  collected so far; it is taken as a total predicate.\<close>

record 'v FormStep =
  step_id :: string
  message :: string
  schema :: response_type
  condition :: "('v answers \<Rightarrow> bool) option"
  is_required :: bool

text \<open>\<^verbatim>\<open>exceptions.py\<close>: \<^verbatim>\<open>McpError(code, message)\<close>. \<^verbatim>\<open>IndexError\<close> is the built-in
  exception that \<^verbatim>\<open>err.get('loc', [''])[0]\<close> raises on an empty location.\<close>

datatype exn =
    McpError int string
  | IndexError

text \<open>One entry of pydantic's \<^verbatim>\<open>ValidationError.errors()\<close>: a dict of which the engine
  reads the keys \<^verbatim>\<open>'loc'\<close> and \<^verbatim>\<open>'msg'\<close> with \<^verbatim>\<open>dict.get\<close>; a missing key is \<open>None\<close>.
  The items of a location are kept as the text an f-string prints for them.\<close>

record error_dict =
  loc :: "string list option"
  msg :: "string option"

text \<open>
  What one call of \<^verbatim>\<open>ctx.elicit\<close> does when the user has replied: it returns a result
  whose \<^verbatim>\<open>action\<close> is \<^verbatim>\<open>"accept"\<close> (with \<^verbatim>\<open>data\<close>), \<^verbatim>\<open>"decline"\<close>, \<^verbatim>\<open>"cancel"\<close> or some
  other string, or it raises pydantic's \<^verbatim>\<open>ValidationError\<close> because the submitted data
  does not fit the schema.
\<close>

datatype 'v reply =
    Accept 'v
  | Decline
  | Cancel
  | OtherAction string
  | RaiseValidationError "error_dict list"

text \<open>A value kept in the state store under one key: a \<^verbatim>\<open>dict\<close>, or anything else.\<close>

datatype 'v state_value =
    Dict "'v answers"
  | NonDict

text \<open>
  One call of \<^verbatim>\<open>ctx.elicit\<close> as the transport saw it: the message, the response type, and
  the reply (\<open>None\<close> while the user has not replied). \<open>ex_step\<close> is a label that the
  source does not pass: the id of the step whose loop made the call.
\<close>

record 'v exchange =
  ex_step :: string
  ex_message :: string
  ex_schema :: response_type
  ex_reply :: "'v reply option"

text \<open>
  The \<^verbatim>\<open>Context\<close> of one session: its state store, the replies the user will give to
  the next prompts, and the transcript of the prompts issued so far.
\<close>

record 'v Context =
  state :: "string \<rightharpoonup> 'v state_value"
  replies :: "'v reply list"
  transcript :: "'v exchange list"

record 'v WizardManager =
  wizard_id :: string
  steps :: "'v FormStep list"

subsection \<open>The collaborators\<close>

definition get_state :: "string \<Rightarrow> 'v Context \<Rightarrow> 'v state_value option" where
  "get_state key ctx = state ctx key"

definition set_state :: "string \<Rightarrow> 'v state_value \<Rightarrow> 'v Context \<Rightarrow> 'v Context" where
  "set_state key val ctx = ctx\<lparr>state := (state ctx)(key \<mapsto> val)\<rparr>"

text \<open>\<^verbatim>\<open>await ctx.elicit(message=..., response_type=...)\<close>: the prompt is issued; the call
  returns the next reply, or never returns (\<open>None\<close>) when the user gives none.\<close>

definition elicit :: "string \<Rightarrow> string \<Rightarrow> response_type \<Rightarrow> 'v Context
    \<Rightarrow> 'v reply option \<times> 'v Context" where
  "elicit sid m rt ctx =
     (case replies ctx of
        [] \<Rightarrow> (None,
               ctx\<lparr>transcript := transcript ctx @
                 [\<lparr>ex_step = sid, ex_message = m, ex_schema = rt, ex_reply = None\<rparr>]\<rparr>)
      | r # rs \<Rightarrow> (Some r,
               ctx\<lparr>replies := rs, transcript := transcript ctx @
                 [\<lparr>ex_step = sid, ex_message = m, ex_schema = rt, ex_reply = Some r\<rparr>]\<rparr>))"

subsection \<open>\<^verbatim>\<open>WizardManager\<close>\<close>

definition init :: "string \<Rightarrow> 'v WizardManager" where
  "init wid = \<lparr>wizard_id = wid, steps = []\<rparr>"

definition add_step :: "'v FormStep \<Rightarrow> 'v WizardManager \<Rightarrow> 'v WizardManager" where
  "add_step step w = w\<lparr>steps := steps w @ [step]\<rparr>"

text \<open>Python's \<^verbatim>\<open>sep.join(items)\<close>.\<close>

fun join :: "string \<Rightarrow> string list \<Rightarrow> string" where
  "join sep [] = []"
| "join sep [x] = x"
| "join sep (x # y # ys) = x @ sep @ join sep (y # ys)"

text \<open>\<^verbatim>\<open>f"- {err.get('loc', [''])[0]}: {err.get('msg', 'Invalid')}"\<close>\<close>

definition format_error :: "error_dict \<Rightarrow> exn + string" where
  "format_error err =
     (case (case loc err of None \<Rightarrow> [''''] | Some l \<Rightarrow> l) of
        [] \<Rightarrow> Inl IndexError
      | first # _ \<Rightarrow>
          Inr (''- '' @ first @ '': '' @ (case msg err of None \<Rightarrow> ''Invalid'' | Some m \<Rightarrow> m)))"

text \<open>The generator that \<^verbatim>\<open>join\<close> consumes: the first entry that raises ends it.\<close>

fun format_errors :: "error_dict list \<Rightarrow> exn + string list" where
  "format_errors [] = Inr []"
| "format_errors (err # errs) =
     (case format_error err of
        Inl e \<Rightarrow> Inl e
      | Inr line \<Rightarrow> (case format_errors errs of Inl e \<Rightarrow> Inl e | Inr ls \<Rightarrow> Inr (line # ls)))"

text \<open>The separator of the source is the string literal \<^verbatim>\<open>"\\n"\<close>: a backslash and the
  letter n.\<close>

definition error_details :: "error_dict list \<Rightarrow> exn + string" where
  "error_details errs =
     (case format_errors errs of
        Inl e \<Rightarrow> Inl e
      | Inr ls \<Rightarrow> Inr (join [CHR 0x5C, CHR ''n''] ls))"

text \<open>\<^verbatim>\<open>f"{step.message}\n\nValidation Error(s):\n{error_details}\n\nPlease correct your input."\<close>\<close>

definition retry_message :: "'v FormStep \<Rightarrow> string \<Rightarrow> string" where
  "retry_message step details =
     message step @ [CHR 0x0A, CHR 0x0A] @ ''Validation Error(s):'' @ [CHR 0x0A] @ details
       @ [CHR 0x0A, CHR 0x0A] @ ''Please correct your input.''"

definition required_declined :: "string \<Rightarrow> exn" where
  "required_declined sid =
     McpError (- 32600) (''Required step '' @ [CHR 0x27] @ sid @ [CHR 0x27] @ '' declined.'')"

definition cancelled :: exn where
  "cancelled = McpError (- 32000) ''Workflow aborted by user cancellation.''"

definition unknown_action :: exn where
  "unknown_action = McpError (- 32603) ''Internal error: Received unknown elicitation action.''"

text \<open>How a loop ends: it goes on to the next statement, an exception leaves
  \<^verbatim>\<open>execute\<close>, or the awaited reply never comes.\<close>

datatype flow = Completed | Raised exn | Blocked

text \<open>
  The \<^verbatim>\<open>while True\<close> loop of one step. Each turn consumes one reply, so the loop ends
  on every finite list of replies; with no reply left it is blocked in \<^verbatim>\<open>await\<close>.
\<close>

function while_true :: "string \<Rightarrow> 'v FormStep \<Rightarrow> string \<Rightarrow> 'v answers \<Rightarrow> 'v Context
    \<Rightarrow> flow \<times> 'v answers \<times> 'v Context" where
  "while_true wid step current_message session_data ctx =
     (case elicit (step_id step) current_message (schema step) ctx of
        (None, ctx') \<Rightarrow> (Blocked, session_data, ctx')
      | (Some result, ctx') \<Rightarrow>
          (case result of
             Accept d \<Rightarrow>
               (Completed, session_data(step_id step \<mapsto> d),
                set_state wid (Dict (session_data(step_id step \<mapsto> d))) ctx')
           | Decline \<Rightarrow>
               (if is_required step
                then (Raised (required_declined (step_id step)), session_data, ctx')
                else (Completed, session_data, ctx'))
           | Cancel \<Rightarrow> (Raised cancelled, session_data, ctx')
           | OtherAction a \<Rightarrow> (Raised unknown_action, session_data, ctx')
           | RaiseValidationError errs \<Rightarrow>
               (case error_details errs of
                  Inl e \<Rightarrow> (Raised e, session_data, ctx')
                | Inr details \<Rightarrow>
                    while_true wid step (retry_message step details) session_data ctx')))"
  by pat_completeness auto
termination
  by (relation "measure (\<lambda>(wid, step, m, sd, ctx). length (replies ctx))")
     (auto simp: elicit_def split: list.splits)

text \<open>\<^verbatim>\<open>if step.condition and not step.condition(session_data)\<close>\<close>

definition hidden :: "'v FormStep \<Rightarrow> 'v answers \<Rightarrow> bool" where
  "hidden step session_data =
     (case condition step of None \<Rightarrow> False | Some c \<Rightarrow> \<not> c session_data)"

text \<open>The \<^verbatim>\<open>for step in self.steps\<close> loop.\<close>

fun for_steps :: "string \<Rightarrow> 'v FormStep list \<Rightarrow> 'v answers \<Rightarrow> 'v Context
    \<Rightarrow> flow \<times> 'v answers \<times> 'v Context" where
  "for_steps wid [] session_data ctx = (Completed, session_data, ctx)"
| "for_steps wid (step # rest) session_data ctx =
     (if step_id step \<in> dom session_data then for_steps wid rest session_data ctx
      else if hidden step session_data then for_steps wid rest session_data ctx
      else (case while_true wid step (message step) session_data ctx of
              (Completed, session_data', ctx') \<Rightarrow> for_steps wid rest session_data' ctx'
            | (Raised e, session_data', ctx') \<Rightarrow> (Raised e, session_data', ctx')
            | (Blocked, session_data', ctx') \<Rightarrow> (Blocked, session_data', ctx')))"

text \<open>\<^verbatim>\<open>session_data = await ctx.get_state(self.wizard_id) or {}\<close>, then the
  \<^verbatim>\<open>isinstance(session_data, dict)\<close> test.\<close>

definition load_session :: "string \<Rightarrow> 'v Context \<Rightarrow> 'v answers" where
  "load_session wid ctx =
     (case get_state wid ctx of
        None \<Rightarrow> Map.empty
      | Some NonDict \<Rightarrow> Map.empty
      | Some (Dict d) \<Rightarrow> d)"

text \<open>
  \<^verbatim>\<open>WizardManager.execute\<close>. The result is \<open>None\<close> when the call never returns,
  \<open>Some (Inl e)\<close> when it raises \<open>e\<close>, \<open>Some (Inr answers)\<close> when it returns; the
  context is the one the call leaves behind.
\<close>

definition execute :: "'v WizardManager \<Rightarrow> 'v Context
    \<Rightarrow> (exn + 'v answers) option \<times> 'v Context" where
  "execute w ctx =
     (case for_steps (wizard_id w) (steps w) (load_session (wizard_id w) ctx) ctx of
        (Completed, session_data, ctx') \<Rightarrow>
          (Some (Inr session_data), set_state (wizard_id w) (Dict Map.empty) ctx')
      | (Raised e, session_data, ctx') \<Rightarrow> (Some (Inl e), ctx')
      | (Blocked, session_data, ctx') \<Rightarrow> (None, ctx'))"

subsection \<open>Notions used in the statements\<close>

text \<open>
  The statements below speak about a run through the exchanges it adds to the
  transcript (\<open>asked\<close>), and about the answers those exchanges carry
  (\<open>record_accepted\<close>). \<open>reply_to\<close>, \<open>served\<close>, \<open>retried\<close> and \<open>closes\<close> describe
  one turn of the retry loop and are used in the proofs only.
\<close>

definition asked :: "'v Context \<Rightarrow> 'v Context \<Rightarrow> 'v exchange list" where
  "asked ctx ctx' = drop (length (transcript ctx)) (transcript ctx')"

definition retried :: "'v exchange \<Rightarrow> bool" where
  "retried e = (case ex_reply e of
      Some (RaiseValidationError errs) \<Rightarrow> (case error_details errs of Inl _ \<Rightarrow> False | Inr _ \<Rightarrow> True)
    | _ \<Rightarrow> False)"

definition closes :: "string \<Rightarrow> 'v FormStep \<Rightarrow> 'v answers \<Rightarrow> (string \<rightharpoonup> 'v state_value)
    \<Rightarrow> 'v exchange \<Rightarrow> flow \<Rightarrow> 'v answers \<Rightarrow> (string \<rightharpoonup> 'v state_value) \<Rightarrow> bool" where
  "closes wid step sd st fin x sd' st' =
     (case ex_reply fin of
        None \<Rightarrow> x = Blocked \<and> sd' = sd \<and> st' = st
      | Some (Accept d) \<Rightarrow>
          x = Completed \<and> sd' = sd(step_id step \<mapsto> d) \<and> st' = st(wid \<mapsto> Dict sd')
      | Some Decline \<Rightarrow>
          x = (if is_required step then Raised (required_declined (step_id step)) else Completed)
          \<and> sd' = sd \<and> st' = st
      | Some Cancel \<Rightarrow> x = Raised cancelled \<and> sd' = sd \<and> st' = st
      | Some (OtherAction a) \<Rightarrow> x = Raised unknown_action \<and> sd' = sd \<and> st' = st
      | Some (RaiseValidationError errs) \<Rightarrow>
          (case error_details errs of Inl e \<Rightarrow> x = Raised e | Inr _ \<Rightarrow> False)
          \<and> sd' = sd \<and> st' = st)"

definition reply_to :: "'v FormStep \<Rightarrow> string \<Rightarrow> 'v reply option \<Rightarrow> 'v exchange" where
  "reply_to step m r = \<lparr>ex_step = step_id step, ex_message = m, ex_schema = schema step, ex_reply = r\<rparr>"

definition served :: "'v FormStep \<Rightarrow> string \<Rightarrow> 'v Context \<Rightarrow> 'v Context" where
  "served step m ctx = ctx\<lparr>replies := tl (replies ctx),
     transcript := transcript ctx @ [reply_to step m (Some (hd (replies ctx)))]\<rparr>"

definition accepted :: "'v exchange \<Rightarrow> bool" where
  "accepted e = (case ex_reply e of Some (Accept d) \<Rightarrow> True | _ \<Rightarrow> False)"

fun record_accepted :: "'v exchange list \<Rightarrow> 'v answers \<Rightarrow> 'v answers" where
  "record_accepted [] sd = sd"
| "record_accepted (e # es) sd =
     record_accepted es (case ex_reply e of Some (Accept d) \<Rightarrow> sd(ex_step e \<mapsto> d) | _ \<Rightarrow> sd)"

subsection \<open>A concrete wizard\<close>

text \<open>
  The wizard of the specification's example scenario, with one optional step added:
  \<open>env\<close> (single select), \<open>scale\<close> (multi select, shown only when \<open>env\<close> is
  \<open>production\<close>), \<open>note\<close> (free text, optional) and \<open>confirm\<close> (free text, required).
  Answers are strings or lists of strings.
\<close>

datatype pyval = Str string | StrList "string list"

definition env_step :: "pyval FormStep" where
  "env_step = \<lparr>step_id = ''env'', message = ''Which environment?'',
     schema = SingleSelect [''development'', ''staging'', ''production''],
     condition = None, is_required = True\<rparr>"

definition scale_step :: "pyval FormStep" where
  "scale_step = \<lparr>step_id = ''scale'', message = ''Which tiers?'',
     schema = MultiSelect [''web'', ''worker''],
     condition = Some (\<lambda>data. data ''env'' = Some (Str ''production'')), is_required = True\<rparr>"

definition note_step :: "pyval FormStep" where
  "note_step = \<lparr>step_id = ''note'', message = ''Any note?'', schema = StrType,
     condition = None, is_required = False\<rparr>"

definition confirm_step :: "pyval FormStep" where
  "confirm_step = \<lparr>step_id = ''confirm'', message = ''Confirm?'', schema = StrType,
     condition = None, is_required = True\<rparr>"

definition deploy_wizard :: "pyval WizardManager" where
  "deploy_wizard =
     add_step confirm_step (add_step note_step (add_step scale_step (add_step env_step
       (init ''deploy''))))"

text \<open>A session with nothing stored, in which the user will give the replies \<open>rs\<close>.\<close>

definition fresh :: "'v reply list \<Rightarrow> 'v Context" where
  "fresh rs = \<lparr>state = Map.empty, replies = rs, transcript = []\<rparr>"

text \<open>A step with an empty id and a multi select without options.\<close>

definition blank_step :: "pyval FormStep" where
  "blank_step = \<lparr>step_id = [], message = ''Pick'', schema = MultiSelect [],
     condition = None, is_required = True\<rparr>"

text \<open>A session whose stored mapping holds a key that no step of the wizard has.\<close>

definition stale_ctx :: "pyval Context" where
  "stale_ctx = \<lparr>state = [''deploy'' \<mapsto> Dict [''region'' \<mapsto> Str ''eu'']],
     replies = [Accept (Str ''staging''), Decline, Accept (Str ''ok'')], transcript = []\<rparr>"

text \<open>Runs of the concrete wizard: the session that each one leaves behind.\<close>

definition declined_replies :: "pyval reply list" where
  "declined_replies = [Accept (Str ''production''), Accept (StrList [''web'']), Decline, Decline]"

definition declined_ctx :: "pyval Context" where
  "declined_ctx = snd (execute deploy_wizard (fresh declined_replies))"

definition cancelled_ctx :: "pyval Context" where
  "cancelled_ctx = snd (execute deploy_wizard (fresh [Accept (Str ''staging''), Cancel]))"

definition staging_replies :: "pyval reply list" where
  "staging_replies = [Accept (Str ''staging''), Decline, Accept (Str ''ok'')]"

definition staging_ctx :: "pyval Context" where
  "staging_ctx = snd (execute deploy_wizard (fresh staging_replies))"

text \<open>
  A wizard whose first step is shown only while \<open>review\<close> has no answer, followed by
  the step \<open>review\<close> itself and a confirmation.
\<close>

definition plan_step :: "pyval FormStep" where
  "plan_step = \<lparr>step_id = ''plan'', message = ''Which plan?'', schema = StrType,
     condition = Some (\<lambda>data. data ''review'' = None), is_required = True\<rparr>"

definition review_step :: "pyval FormStep" where
  "review_step = \<lparr>step_id = ''review'', message = ''Who reviews?'', schema = StrType,
     condition = None, is_required = True\<rparr>"

definition release_wizard :: "pyval WizardManager" where
  "release_wizard = add_step confirm_step (add_step review_step (add_step plan_step (init ''release'')))"

definition release_ctx :: "pyval Context" where
  "release_ctx = snd (execute release_wizard (fresh [Accept (Str ''basic''), Accept (Str ''ann''), Cancel]))"

text \<open>The step \<open>details\<close> of \<^verbatim>\<open>examples/basic_wizard.py\<close>, alone in a wizard, and two
  validation failures: the first with two field errors, the second with one.\<close>

definition details_step :: "pyval FormStep" where
  "details_step = \<lparr>step_id = ''details'', message = ''Please provide additional profile details:'',
     schema = ModelClass ''ProfileDetails'', condition = None, is_required = True\<rparr>"

definition profile_wizard :: "pyval WizardManager" where
  "profile_wizard = add_step details_step (init ''profile_wizard'')"

definition two_failures :: "pyval reply list" where
  "two_failures =
     [RaiseValidationError
        [\<lparr>loc = Some [''age''], msg = Some ''too small''\<rparr>,
         \<lparr>loc = Some [''bio''], msg = Some ''required''\<rparr>],
      RaiseValidationError [\<lparr>loc = Some [''age''], msg = Some ''not a number''\<rparr>]]"





section \<open>Properties of the engine\<close>

subsection \<open>One turn of the retry loop\<close>

declare while_true.simps [simp del]

lemma served_simps [simp]:
  "state (served step m ctx) = state ctx"
  "replies (served step m ctx) = tl (replies ctx)"
  "transcript (served step m ctx) = transcript ctx @ [reply_to step m (Some (hd (replies ctx)))]"
  by (simp_all add: served_def)

lemma elicit_Cons:
  "replies ctx = r # rs \<Longrightarrow> elicit (step_id step) m (schema step) ctx = (Some r, served step m ctx)"
  by (simp add: elicit_def served_def reply_to_def)

lemma while_true_Nil:
  "replies ctx = [] \<Longrightarrow> while_true wid step m sd ctx =
     (Blocked, sd, ctx\<lparr>transcript := transcript ctx @ [reply_to step m None]\<rparr>)"
  by (subst while_true.simps) (simp add: elicit_def reply_to_def)

lemma while_true_Accept:
  "replies ctx = Accept d # rs \<Longrightarrow> while_true wid step m sd ctx =
     (Completed, sd(step_id step \<mapsto> d), set_state wid (Dict (sd(step_id step \<mapsto> d))) (served step m ctx))"
  by (subst while_true.simps) (simp add: elicit_Cons)

lemma while_true_Decline:
  "replies ctx = Decline # rs \<Longrightarrow> while_true wid step m sd ctx =
     (if is_required step then Raised (required_declined (step_id step)) else Completed, sd, served step m ctx)"
  by (subst while_true.simps) (simp add: elicit_Cons)

lemma while_true_Cancel:
  "replies ctx = Cancel # rs \<Longrightarrow> while_true wid step m sd ctx = (Raised cancelled, sd, served step m ctx)"
  by (subst while_true.simps) (simp add: elicit_Cons)

lemma while_true_OtherAction:
  "replies ctx = OtherAction a # rs \<Longrightarrow> while_true wid step m sd ctx = (Raised unknown_action, sd, served step m ctx)"
  by (subst while_true.simps) (simp add: elicit_Cons)

lemma while_true_invalid_raise:
  "replies ctx = RaiseValidationError errs # rs \<Longrightarrow> error_details errs = Inl e \<Longrightarrow>
   while_true wid step m sd ctx = (Raised e, sd, served step m ctx)"
  by (subst while_true.simps) (simp add: elicit_Cons)

lemma while_true_retry:
  "replies ctx = RaiseValidationError errs # rs \<Longrightarrow> error_details errs = Inr d \<Longrightarrow>
   while_true wid step m sd ctx = while_true wid step (retry_message step d) sd (served step m ctx)"
  by (subst while_true.simps) (simp add: elicit_Cons)

lemmas while_true_unfold = while_true_Nil while_true_Accept while_true_Decline while_true_Cancel
  while_true_OtherAction while_true_invalid_raise while_true_retry

lemma while_true_run:
  "while_true wid step m sd ctx = (x, sd', ctx') \<Longrightarrow>
     \<exists>retries fin. transcript ctx' = transcript ctx @ retries @ [fin] \<and>
       (\<forall>e \<in> set retries. ex_step e = step_id step \<and> retried e) \<and>
       ex_step fin = step_id step \<and> ex_message (hd (retries @ [fin])) = m \<and>
       closes wid step sd (state ctx) fin x sd' (state ctx')"
proof (induction "replies ctx" arbitrary: ctx m)
  case Nil
  from Nil(2) have "transcript ctx' = transcript ctx @ [] @ [reply_to step m None]"
    and "closes wid step sd (state ctx) (reply_to step m None) x sd' (state ctx')"
    by (auto simp: while_true_Nil[OF Nil(1)[symmetric]] reply_to_def closes_def)
  then show ?case by (fastforce simp: reply_to_def)
next
  case (Cons r rs)
  note rep = Cons.hyps(2)[symmetric]
  let ?fin = "reply_to step m (Some r)"
  have hd: "hd (replies ctx) = r" using rep by simp
  show ?case
  proof (cases "retried ?fin")
    case True
    then obtain errs d where r: "r = RaiseValidationError errs" and d: "error_details errs = Inr d"
      by (auto simp: retried_def reply_to_def split: reply.splits sum.splits)
    have "while_true wid step (retry_message step d) sd (served step m ctx) = (x, sd', ctx')"
      using Cons.prems rep r d by (simp add: while_true_retry)
    with Cons.hyps(1)[of "served step m ctx" "retry_message step d"] rep
    obtain retries fin where *: "transcript ctx' = transcript (served step m ctx) @ retries @ [fin]"
      "\<forall>e \<in> set retries. ex_step e = step_id step \<and> retried e" "ex_step fin = step_id step"
      "closes wid step sd (state ctx) fin x sd' (state ctx')"
      by auto
    from * True hd have "transcript ctx' = transcript ctx @ (?fin # retries) @ [fin]"
      and "\<forall>e \<in> set (?fin # retries). ex_step e = step_id step \<and> retried e"
      and "ex_message (hd ((?fin # retries) @ [fin])) = m"
      by (auto simp: reply_to_def)
    with *(3,4) show ?thesis by blast
  next
    case False
    have "transcript ctx' = transcript ctx @ [] @ [?fin] \<and>
          closes wid step sd (state ctx) ?fin x sd' (state ctx')"
    proof (cases r)
      case (RaiseValidationError errs)
      with False obtain e where "error_details errs = Inl e"
        by (cases "error_details errs") (auto simp: retried_def reply_to_def)
      with Cons.prems rep RaiseValidationError hd show ?thesis
        by (auto simp: while_true_invalid_raise closes_def reply_to_def)
    qed (use Cons.prems rep hd in \<open>auto simp: while_true_unfold set_state_def closes_def reply_to_def\<close>)
    then show ?thesis by (fastforce simp: reply_to_def)
  qed
qed

lemma asked_append:
  "transcript b = transcript a @ xs \<Longrightarrow> asked a b = xs"
  by (simp add: asked_def)

lemma asked_trans:
  "transcript b = transcript a @ asked a b \<Longrightarrow> transcript c = transcript b @ asked b c \<Longrightarrow>
     asked a c = asked a b @ asked b c \<and> transcript c = transcript a @ asked a c"
  by (metis append.assoc asked_append)

lemma while_true_asked:
  assumes "while_true wid step m sd ctx = (x, sd', ctx')"
  obtains retries fin where
    "asked ctx ctx' = retries @ [fin]"
    "transcript ctx' = transcript ctx @ asked ctx ctx'"
    "\<forall>e \<in> set retries. ex_step e = step_id step \<and> retried e"
    "ex_step fin = step_id step"
    "ex_message (hd (asked ctx ctx')) = m"
    "closes wid step sd (state ctx) fin x sd' (state ctx')"
proof -
  from while_true_run[OF assms] obtain retries fin where
    *: "transcript ctx' = transcript ctx @ retries @ [fin]"
       "\<forall>e \<in> set retries. ex_step e = step_id step \<and> retried e"
       "ex_step fin = step_id step" "ex_message (hd (retries @ [fin])) = m"
       "closes wid step sd (state ctx) fin x sd' (state ctx')"
    by blast
  from *(1) have "asked ctx ctx' = retries @ [fin]" by (rule asked_append)
  with * that show thesis by metis
qed

lemma for_steps_Cons_cases:
  assumes "for_steps wid (s # rest) sd ctx = (x, sd', ctx')"
  obtains (skip) "step_id s \<in> dom sd \<or> hidden s sd"
      "for_steps wid rest sd ctx = (x, sd', ctx')"
  | (go) sd1 ctx1 where "step_id s \<notin> dom sd" "\<not> hidden s sd"
      "while_true wid s (message s) sd ctx = (Completed, sd1, ctx1)"
      "for_steps wid rest sd1 ctx1 = (x, sd', ctx')"
  | (stop) "step_id s \<notin> dom sd" "\<not> hidden s sd"
      "while_true wid s (message s) sd ctx = (x, sd', ctx')" "x \<noteq> Completed"
proof (cases "step_id s \<in> dom sd \<or> hidden s sd")
  case True
  with assms have "for_steps wid rest sd ctx = (x, sd', ctx')" by (auto split: if_splits)
  with True skip show thesis by blast
next
  case False
  obtain x1 sd1 ctx1 where w: "while_true wid s (message s) sd ctx = (x1, sd1, ctx1)"
    by (cases "while_true wid s (message s) sd ctx") auto
  show thesis
  proof (cases x1)
    case Completed
    with assms False w go show thesis by auto
  next
    case (Raised e)
    with assms False w stop show thesis by auto
  next
    case Blocked
    with assms False w stop show thesis by auto
  qed
qed

lemma for_steps_prefix:
  "for_steps wid ss sd ctx = (x, sd', ctx') \<Longrightarrow> transcript ctx' = transcript ctx @ asked ctx ctx'"
proof (induction ss arbitrary: sd ctx)
  case Nil
  then show ?case by (simp add: asked_def)
next
  case (Cons s rest)
  from Cons.prems show ?case
  proof (cases rule: for_steps_Cons_cases)
    case skip
    then show ?thesis using Cons.IH by blast
  next
    case (go sd1 ctx1)
    from go(3) have "transcript ctx1 = transcript ctx @ asked ctx ctx1"
      by (rule while_true_asked)
    with Cons.IH[OF go(4)] show ?thesis using asked_trans by blast
  next
    case stop
    from stop(3) show ?thesis by (rule while_true_asked)
  qed
qed

lemma closes_mono: "closes wid step sd st fin x sd' st' \<Longrightarrow> step_id step \<notin> dom sd \<Longrightarrow> sd \<subseteq>\<^sub>m sd'"
  by (auto simp: closes_def map_le_def split: option.splits reply.splits sum.splits)

lemma closes_dom: "closes wid step sd st fin x sd' st' \<Longrightarrow> dom sd' \<subseteq> insert (step_id step) (dom sd)"
  by (auto simp: closes_def split: option.splits reply.splits sum.splits)

lemma for_steps_mono:
  "for_steps wid ss sd ctx = (x, sd', ctx') \<Longrightarrow> sd \<subseteq>\<^sub>m sd'"
proof (induction ss arbitrary: sd ctx)
  case Nil
  then show ?case by simp
next
  case (Cons s rest)
  from Cons.prems show ?case
  proof (cases rule: for_steps_Cons_cases)
    case skip
    then show ?thesis using Cons.IH by blast
  next
    case (go sd1 ctx1)
    from go(3) go(1) have "sd \<subseteq>\<^sub>m sd1"
      by (elim while_true_asked) (rule closes_mono)
    with Cons.IH[OF go(4)] show ?thesis by (blast intro: map_le_trans)
  next
    case stop
    from stop(3) stop(1) show ?thesis
      by (elim while_true_asked) (rule closes_mono)
  qed
qed

lemma for_steps_dom:
  "for_steps wid ss sd ctx = (x, sd', ctx') \<Longrightarrow> dom sd' \<subseteq> dom sd \<union> step_id ` set ss"
proof (induction ss arbitrary: sd ctx)
  case Nil
  then show ?case by simp
next
  case (Cons s rest)
  from Cons.prems show ?case
  proof (cases rule: for_steps_Cons_cases)
    case skip
    then show ?thesis using Cons.IH by fastforce
  next
    case (go sd1 ctx1)
    from go(3) have "dom sd1 \<subseteq> insert (step_id s) (dom sd)"
      by (elim while_true_asked) (rule closes_dom)
    with Cons.IH[OF go(4)] show ?thesis by auto
  next
    case stop
    from stop(3) have "dom sd' \<subseteq> insert (step_id s) (dom sd)"
      by (elim while_true_asked) (rule closes_dom)
    then show ?thesis by auto
  qed
qed

lemma while_true_labels:
  assumes "while_true wid step m sd ctx = (x, sd', ctx')"
  shows "\<forall>e \<in> set (asked ctx ctx'). ex_step e = step_id step"
  using assms by (elim while_true_asked) auto

lemma for_steps_labels:
  "for_steps wid ss sd ctx = (x, sd', ctx') \<Longrightarrow>
     \<forall>e \<in> set (asked ctx ctx'). ex_step e \<in> step_id ` set ss \<and> ex_step e \<notin> dom sd"
proof (induction ss arbitrary: sd ctx)
  case Nil
  then show ?case by (simp add: asked_def)
next
  case (Cons s rest)
  from Cons.prems show ?case
  proof (cases rule: for_steps_Cons_cases)
    case skip
    then show ?thesis using Cons.IH by fastforce
  next
    case (go sd1 ctx1)
    have 1: "transcript ctx1 = transcript ctx @ asked ctx ctx1"
      using go(3) by (rule while_true_asked)
    have 2: "transcript ctx' = transcript ctx1 @ asked ctx1 ctx'"
      using go(4) by (rule for_steps_prefix)
    have 3: "asked ctx ctx' = asked ctx ctx1 @ asked ctx1 ctx'"
      using asked_trans[OF 1 2] by simp
    have "sd \<subseteq>\<^sub>m sd1" using go(3) go(1) by (elim while_true_asked) (rule closes_mono)
    then have 4: "dom sd \<subseteq> dom sd1" by (rule map_le_implies_dom_le)
    from Cons.IH[OF go(4)] while_true_labels[OF go(3)] go(1) 3 4 show ?thesis by fastforce
  next
    case stop
    from while_true_labels[OF stop(3)] stop(1) show ?thesis by auto
  qed
qed

lemma record_accepted_append:
  "record_accepted (xs @ ys) sd = record_accepted ys (record_accepted xs sd)"
  by (induction xs arbitrary: sd) auto

lemma record_accepted_none:
  "\<forall>e \<in> set xs. \<not> accepted e \<Longrightarrow> record_accepted xs sd = sd"
  by (induction xs arbitrary: sd) (auto simp: accepted_def split: option.splits reply.splits)

lemma retried_not_accepted: "retried e \<Longrightarrow> \<not> accepted e"
  by (auto simp: retried_def accepted_def split: option.splits reply.splits)

lemma while_true_store:
  assumes "while_true wid step m sd ctx = (x, sd', ctx')"
  shows "sd' = record_accepted (asked ctx ctx') sd \<and>
    state ctx' = (if list_ex accepted (asked ctx ctx') then (state ctx)(wid \<mapsto> Dict sd') else state ctx)"
proof -
  from assms obtain retries fin where
    a: "asked ctx ctx' = retries @ [fin]" and r: "\<forall>e \<in> set retries. ex_step e = step_id step \<and> retried e"
    and f: "ex_step fin = step_id step" and c: "closes wid step sd (state ctx) fin x sd' (state ctx')"
    by (rule while_true_asked)
  from r have n: "\<forall>e \<in> set retries. \<not> accepted e" by (simp add: retried_not_accepted)
  then have "record_accepted retries sd = sd" by (rule record_accepted_none)
  then have 1: "record_accepted (asked ctx ctx') sd = record_accepted [fin] sd"
    by (simp add: a record_accepted_append)
  from n have 2: "list_ex accepted (asked ctx ctx') = accepted fin"
    by (auto simp: a list_ex_iff)
  from c f show ?thesis unfolding 1 2
    by (auto simp: closes_def accepted_def split: option.splits reply.splits sum.splits)
qed

lemma for_steps_store:
  "for_steps wid ss sd ctx = (x, sd', ctx') \<Longrightarrow>
     sd' = record_accepted (asked ctx ctx') sd \<and>
     state ctx' = (if list_ex accepted (asked ctx ctx') then (state ctx)(wid \<mapsto> Dict sd') else state ctx)"
proof (induction ss arbitrary: sd ctx)
  case Nil
  then show ?case by (simp add: asked_def)
next
  case (Cons s rest)
  from Cons.prems show ?case
  proof (cases rule: for_steps_Cons_cases)
    case skip
    then show ?thesis using Cons.IH by blast
  next
    case (go sd1 ctx1)
    have 1: "transcript ctx1 = transcript ctx @ asked ctx ctx1"
      using go(3) by (rule while_true_asked)
    have 2: "transcript ctx' = transcript ctx1 @ asked ctx1 ctx'"
      using go(4) by (rule for_steps_prefix)
    have 3: "asked ctx ctx' = asked ctx ctx1 @ asked ctx1 ctx'"
      using asked_trans[OF 1 2] by simp
    from while_true_store[OF go(3)] Cons.IH[OF go(4)] show ?thesis
      by (auto simp: 3 record_accepted_append list_ex_iff record_accepted_none)
  next
    case stop
    from stop(3) show ?thesis by (rule while_true_store)
  qed
qed

lemma for_steps_append:
  "for_steps wid (xs @ ys) sd ctx =
     (case for_steps wid xs sd ctx of
        (Completed, sd1, ctx1) \<Rightarrow> for_steps wid ys sd1 ctx1
      | (Raised e, sd1, ctx1) \<Rightarrow> (Raised e, sd1, ctx1)
      | (Blocked, sd1, ctx1) \<Rightarrow> (Blocked, sd1, ctx1))"
  by (induction xs arbitrary: sd ctx) (auto split: prod.splits flow.splits)

lemma remdups_adj_block:
  "xs \<noteq> [] \<Longrightarrow> \<forall>x \<in> set xs. x = a \<Longrightarrow> remdups_adj (xs @ ys) = remdups_adj (a # ys)"
proof (induction xs)
  case Nil
  then show ?case by simp
next
  case (Cons x xs)
  then show ?case by (cases xs) auto
qed

lemma subseq_remdups_adj_Cons:
  "subseq (remdups_adj ys) zs \<Longrightarrow> subseq (remdups_adj (a # ys)) (a # zs)"
  by (cases ys) (auto simp: subseq_Cons')

lemma for_steps_order:
  "for_steps wid ss sd ctx = (x, sd', ctx') \<Longrightarrow>
     subseq (remdups_adj (map ex_step (asked ctx ctx'))) (map step_id ss)"
proof (induction ss arbitrary: sd ctx)
  case Nil
  then show ?case by (simp add: asked_def)
next
  case (Cons s rest)
  from Cons.prems show ?case
  proof (cases rule: for_steps_Cons_cases)
    case skip
    then show ?thesis using Cons.IH by (auto intro: subseq_Cons')
  next
    case (go sd1 ctx1)
    have 1: "transcript ctx1 = transcript ctx @ asked ctx ctx1"
      using go(3) by (rule while_true_asked)
    have 2: "transcript ctx' = transcript ctx1 @ asked ctx1 ctx'"
      using go(4) by (rule for_steps_prefix)
    have 3: "asked ctx ctx' = asked ctx ctx1 @ asked ctx1 ctx'"
      using asked_trans[OF 1 2] by simp
    have ne: "map ex_step (asked ctx ctx1) \<noteq> []" using go(3) by (elim while_true_asked) simp
    have "\<forall>k \<in> set (map ex_step (asked ctx ctx1)). k = step_id s"
      using while_true_labels[OF go(3)] by simp
    from remdups_adj_block[OF ne this]
    have "remdups_adj (map ex_step (asked ctx ctx')) =
          remdups_adj (step_id s # map ex_step (asked ctx1 ctx'))"
      by (simp add: 3)
    with Cons.IH[OF go(4)] show ?thesis by (simp add: subseq_remdups_adj_Cons)
  next
    case stop
    have ne: "map ex_step (asked ctx ctx') \<noteq> []" using stop(3) by (elim while_true_asked) simp
    have "\<forall>k \<in> set (map ex_step (asked ctx ctx')). k = step_id s"
      using while_true_labels[OF stop(3)] by simp
    from remdups_adj_block[OF ne this, of "[]"] show ?thesis by simp
  qed
qed

lemma asked_set_state [simp]: "asked ctx (set_state k v c) = asked ctx c"
  by (simp add: asked_def set_state_def)

lemma asked_replies [simp]: "asked (ctx\<lparr>replies := rs\<rparr>) c = asked ctx c"
  by (simp add: asked_def)

lemma execute_cases:
  assumes "execute w ctx = (res, ctx')"
  obtains (returned) sd c1 where
      "for_steps (wizard_id w) (steps w) (load_session (wizard_id w) ctx) ctx = (Completed, sd, c1)"
      "res = Some (Inr sd)" "ctx' = set_state (wizard_id w) (Dict Map.empty) c1"
  | (raised) e sd where
      "for_steps (wizard_id w) (steps w) (load_session (wizard_id w) ctx) ctx = (Raised e, sd, ctx')"
      "res = Some (Inl e)"
  | (blocked) sd where
      "for_steps (wizard_id w) (steps w) (load_session (wizard_id w) ctx) ctx = (Blocked, sd, ctx')"
      "res = None"
proof -
  obtain x sd c1 where f: "for_steps (wizard_id w) (steps w) (load_session (wizard_id w) ctx) ctx = (x, sd, c1)"
    by (cases "for_steps (wizard_id w) (steps w) (load_session (wizard_id w) ctx) ctx") auto
  show thesis
  proof (cases x)
    case Completed
    with assms f returned show thesis by (auto simp: execute_def)
  next
    case (Raised e)
    with assms f raised show thesis by (auto simp: execute_def)
  next
    case Blocked
    with assms f blocked show thesis by (auto simp: execute_def)
  qed
qed

lemma for_steps_split:
  assumes "while_true wid s m sd ctx = (x1, sd1, ctx1)" "for_steps wid rest sd1 ctx1 = (x, sd', ctx')"
  shows "asked ctx ctx' = asked ctx ctx1 @ asked ctx1 ctx'"
proof -
  have 1: "transcript ctx1 = transcript ctx @ asked ctx ctx1"
    using assms(1) by (rule while_true_asked)
  have 2: "transcript ctx' = transcript ctx1 @ asked ctx1 ctx'"
    using assms(2) by (rule for_steps_prefix)
  show ?thesis using asked_trans[OF 1 2] by simp
qed

lemma closes_Completed:
  "closes wid step sd st fin Completed sd' st' \<Longrightarrow>
     accepted fin \<or> (ex_reply fin = Some Decline \<and> \<not> is_required step \<and> sd' = sd)"
  by (auto simp: closes_def accepted_def split: option.splits reply.splits sum.splits if_splits)

lemma retried_iff:
  "retried e \<longleftrightarrow> (\<exists>errs d. ex_reply e = Some (RaiseValidationError errs) \<and> error_details errs = Inr d)"
  by (auto simp: retried_def split: option.splits reply.splits sum.splits)

lemma for_steps_accepted:
  "for_steps wid ss sd ctx = (x, sd', ctx') \<Longrightarrow>
     \<forall>e \<in> set (asked ctx ctx'). \<forall>d. ex_reply e = Some (Accept d) \<longrightarrow> sd' (ex_step e) = Some d"
proof (induction ss arbitrary: sd ctx)
  case Nil
  then show ?case by (simp add: asked_def)
next
  case (Cons s rest)
  from Cons.prems show ?case
  proof (cases rule: for_steps_Cons_cases)
    case skip
    then show ?thesis using Cons.IH by blast
  next
    case (go sd1 ctx1)
    note sp = for_steps_split[OF go(3) go(4)]
    have m: "sd1 \<subseteq>\<^sub>m sd'" using go(4) by (rule for_steps_mono)
    have "\<forall>e \<in> set (asked ctx ctx1). \<forall>d. ex_reply e = Some (Accept d) \<longrightarrow> sd1 (ex_step e) = Some d"
      using go(3) by (elim while_true_asked) (auto simp: closes_def retried_iff)
    then have "\<forall>e \<in> set (asked ctx ctx1). \<forall>d. ex_reply e = Some (Accept d) \<longrightarrow> sd' (ex_step e) = Some d"
      using m by (metis domI map_le_def)
    with Cons.IH[OF go(4)] show ?thesis by (auto simp: sp)
  next
    case stop
    from stop(3) stop(4) show ?thesis
      by (elim while_true_asked)
         (auto simp: closes_def retried_iff split: option.splits reply.splits sum.splits)
  qed
qed

lemma for_steps_cancel:
  "for_steps wid ss sd ctx = (x, sd', ctx') \<Longrightarrow>
     (\<forall>e \<in> set (butlast (asked ctx ctx')). ex_reply e \<noteq> Some Cancel) \<and>
     (asked ctx ctx' \<noteq> [] \<and> ex_reply (last (asked ctx ctx')) = Some Cancel \<longrightarrow> x = Raised cancelled)"
proof (induction ss arbitrary: sd ctx)
  case Nil
  then show ?case by (simp add: asked_def)
next
  case (Cons s rest)
  from Cons.prems show ?case
  proof (cases rule: for_steps_Cons_cases)
    case skip
    then show ?thesis using Cons.IH by blast
  next
    case (go sd1 ctx1)
    note sp = for_steps_split[OF go(3) go(4)]
    have 1: "\<forall>e \<in> set (asked ctx ctx1). ex_reply e \<noteq> Some Cancel"
      using go(3) by (elim while_true_asked) (auto dest: closes_Completed simp: accepted_def retried_iff)
    have ne: "asked ctx ctx1 \<noteq> []" using go(3) by (elim while_true_asked) simp
    show ?thesis
    proof (cases "asked ctx1 ctx' = []")
      case True
      with 1 ne show ?thesis by (auto simp: sp dest: in_set_butlastD)
    next
      case False
      with 1 Cons.IH[OF go(4)] show ?thesis by (auto simp: sp butlast_append)
    qed
  next
    case stop
    from stop(3) show ?thesis
      by (elim while_true_asked) (auto simp: closes_def retried_iff)
  qed
qed

lemma for_steps_required_decline:
  "for_steps wid ss sd ctx = (x, sd', ctx') \<Longrightarrow> \<forall>s \<in> set ss. step_id s = k \<longrightarrow> is_required s \<Longrightarrow>
     (\<forall>e \<in> set (butlast (asked ctx ctx')). ex_step e = k \<longrightarrow> ex_reply e \<noteq> Some Decline) \<and>
     (asked ctx ctx' \<noteq> [] \<and> ex_step (last (asked ctx ctx')) = k \<and>
      ex_reply (last (asked ctx ctx')) = Some Decline \<longrightarrow> x = Raised (required_declined k))"
proof (induction ss arbitrary: sd ctx)
  case Nil
  then show ?case by (simp add: asked_def)
next
  case (Cons s rest)
  from Cons.prems(2) have req: "\<forall>s \<in> set rest. step_id s = k \<longrightarrow> is_required s"
    and this_req: "step_id s = k \<longrightarrow> is_required s" by auto
  from Cons.prems(1) show ?case
  proof (cases rule: for_steps_Cons_cases)
    case skip
    then show ?thesis using Cons.IH req by blast
  next
    case (go sd1 ctx1)
    note sp = for_steps_split[OF go(3) go(4)]
    have 1: "\<forall>e \<in> set (asked ctx ctx1). ex_step e = k \<longrightarrow> ex_reply e \<noteq> Some Decline"
      using go(3) this_req
      by (elim while_true_asked) (auto dest: closes_Completed simp: accepted_def retried_iff)
    have ne: "asked ctx ctx1 \<noteq> []" using go(3) by (elim while_true_asked) simp
    show ?thesis
    proof (cases "asked ctx1 ctx' = []")
      case True
      with 1 ne show ?thesis by (auto simp: sp dest: in_set_butlastD)
    next
      case False
      with 1 Cons.IH[OF go(4) req] show ?thesis by (auto simp: sp butlast_append)
    qed
  next
    case stop
    from stop(3) this_req show ?thesis
      by (elim while_true_asked) (auto simp: closes_def retried_iff)
  qed
qed

subsection \<open>Whole runs\<close>

lemmas run_simps = execute_def load_session_def get_state_def set_state_def hidden_def elicit_def
  error_details_def format_error_def retry_message_def add_step_def init_def fresh_def asked_def
  while_true.simps required_declined_def cancelled_def unknown_action_def

lemmas deploy_simps = deploy_wizard_def env_step_def scale_step_def note_step_def confirm_step_def

lemma in_set_not_butlast: "e \<in> set xs \<Longrightarrow> e \<notin> set (butlast xs) \<Longrightarrow> xs \<noteq> [] \<and> last xs = e"
  by (induction xs) (auto split: if_splits)

lemma execute_store:
  assumes "execute w ctx = (res, ctx')" "\<forall>ans. res \<noteq> Some (Inr ans)"
  shows "load_session (wizard_id w) ctx' =
           record_accepted (asked ctx ctx') (load_session (wizard_id w) ctx) \<and>
         state ctx' (wizard_id w) =
           (if list_ex accepted (asked ctx ctx')
            then Some (Dict (record_accepted (asked ctx ctx') (load_session (wizard_id w) ctx)))
            else state ctx (wizard_id w))"
proof -
  have *: ?thesis
    if f: "for_steps (wizard_id w) (steps w) (load_session (wizard_id w) ctx) ctx = (x, sd, ctx')"
    for x sd
  proof -
    from for_steps_store[OF f] have sd: "sd = record_accepted (asked ctx ctx') (load_session (wizard_id w) ctx)"
      and st: "state ctx' = (if list_ex accepted (asked ctx ctx')
                 then (state ctx)(wizard_id w \<mapsto> Dict sd) else state ctx)"
      by simp_all
    show ?thesis
    proof (cases "list_ex accepted (asked ctx ctx')")
      case True
      with st sd show ?thesis by (simp add: load_session_def get_state_def)
    next
      case False
      then have "\<forall>e \<in> set (asked ctx ctx'). \<not> accepted e" by (simp add: list_ex_iff)
      then have "record_accepted (asked ctx ctx') (load_session (wizard_id w) ctx)
                   = load_session (wizard_id w) ctx"
        by (rule record_accepted_none)
      with False st show ?thesis by (simp add: load_session_def get_state_def)
    qed
  qed
  from assms show ?thesis
    by (cases rule: execute_cases) (auto dest: *)
qed

lemma execute_for_steps:
  assumes "execute w ctx = (res, ctx')"
  obtains x sd c1 where
    "for_steps (wizard_id w) (steps w) (load_session (wizard_id w) ctx) ctx = (x, sd, c1)"
    "asked ctx ctx' = asked ctx c1"
    "res = (case x of Completed \<Rightarrow> Some (Inr sd) | Raised e \<Rightarrow> Some (Inl e) | Blocked \<Rightarrow> None)"
    "x \<noteq> Completed \<longrightarrow> ctx' = c1"
    "x = Completed \<longrightarrow> ctx' = set_state (wizard_id w) (Dict Map.empty) c1"
  using assms by (cases rule: execute_cases) auto

lemma load_session_replies [simp]: "load_session k (c\<lparr>replies := rs\<rparr>) = load_session k c"
  by (simp add: load_session_def get_state_def)

lemma execute_partial_accepted:
  assumes "execute w ctx = (res, ctx')" "\<forall>ans. res \<noteq> Some (Inr ans)"
  shows "\<forall>e \<in> set (asked ctx ctx'). \<forall>d. ex_reply e = Some (Accept d) \<longrightarrow>
           load_session (wizard_id w) ctx' (ex_step e) = Some d"
proof -
  from assms(1) obtain x sd c1 where
    f: "for_steps (wizard_id w) (steps w) (load_session (wizard_id w) ctx) ctx = (x, sd, c1)"
    and a: "asked ctx ctx' = asked ctx c1"
    by (rule execute_for_steps)
  from for_steps_store[OF f] have "sd = record_accepted (asked ctx ctx') (load_session (wizard_id w) ctx)"
    by (simp add: a)
  with execute_store[OF assms] have "load_session (wizard_id w) ctx' = sd" by simp
  with for_steps_accepted[OF f] a show ?thesis by simp
qed

lemma for_steps_first:
  assumes "for_steps wid (s # rest) sd ctx = (x, sd', ctx')" "step_id s \<notin> dom sd" "\<not> hidden s sd"
  shows "asked ctx ctx' \<noteq> [] \<and> ex_step (hd (asked ctx ctx')) = step_id s \<and>
         ex_message (hd (asked ctx ctx')) = message s"
proof -
  have *: "asked ctx c1 \<noteq> [] \<and> ex_step (hd (asked ctx c1)) = step_id s \<and>
         ex_message (hd (asked ctx c1)) = message s"
    if "while_true wid s (message s) sd ctx = (x1, sd1, c1)" for x1 sd1 c1
  proof -
    from that have ne: "asked ctx c1 \<noteq> []" by (elim while_true_asked) simp
    then have "hd (asked ctx c1) \<in> set (asked ctx c1)" by simp
    with while_true_labels[OF that] have "ex_step (hd (asked ctx c1)) = step_id s" by blast
    moreover from that have "ex_message (hd (asked ctx c1)) = message s"
      by (elim while_true_asked)
    ultimately show ?thesis using ne by simp
  qed
  from assms(1) show ?thesis
  proof (cases rule: for_steps_Cons_cases)
    case skip
    with assms show ?thesis by simp
  next
    case (go sd1 ctx1)
    from *[OF go(3)] for_steps_split[OF go(3) go(4)] show ?thesis by simp
  next
    case stop
    from *[OF stop(3)] show ?thesis .
  qed
qed

lemma execute_load:
  assumes "execute w ctx = (res, ctx')"
    and "for_steps (wizard_id w) (steps w) (load_session (wizard_id w) ctx) ctx = (x, sd, c1)"
  shows "load_session (wizard_id w) ctx' = (if x = Completed then Map.empty else sd)"
proof -
  from assms(1) obtain x' sd' c1' where
    f: "for_steps (wizard_id w) (steps w) (load_session (wizard_id w) ctx) ctx = (x', sd', c1')"
    and r: "res = (case x' of Completed \<Rightarrow> Some (Inr sd') | Raised e \<Rightarrow> Some (Inl e) | Blocked \<Rightarrow> None)"
    and nc: "x' \<noteq> Completed \<longrightarrow> ctx' = c1'"
    and co: "x' = Completed \<longrightarrow> ctx' = set_state (wizard_id w) (Dict Map.empty) c1'"
    by (rule execute_for_steps)
  from f assms(2) have eq: "x' = x" "sd' = sd" "c1' = c1" by simp_all
  show ?thesis
  proof (cases "x = Completed")
    case True
    with co eq have "ctx' = set_state (wizard_id w) (Dict Map.empty) c1" by simp
    then have "load_session (wizard_id w) ctx' = Map.empty"
      by (simp add: load_session_def get_state_def set_state_def)
    with True show ?thesis by simp
  next
    case False
    with nc eq have c: "ctx' = c1" by simp
    from False r eq have n: "\<forall>ans. res \<noteq> Some (Inr ans)" by (cases x) simp_all
    from for_steps_store[OF assms(2)] c
    have "sd = record_accepted (asked ctx ctx') (load_session (wizard_id w) ctx)" by simp
    with execute_store[OF assms(1) n] False show ?thesis by simp
  qed
qed

lemma while_true_first:
  assumes "while_true wid step m sd ctx = (x, sd', ctx')"
  shows "asked ctx ctx' \<noteq> [] \<and>
         hd (asked ctx ctx') = reply_to step m (case replies ctx of [] \<Rightarrow> None | r # rs \<Rightarrow> Some r)"
proof (cases "replies ctx")
  case Nil
  with assms show ?thesis by (auto simp: while_true_Nil asked_def)
next
  case (Cons r rs)
  have s: "transcript (served step m ctx) = transcript ctx @ [reply_to step m (Some r)]"
    by (simp add: served_def Cons)
  show ?thesis
  proof (cases r)
    case (RaiseValidationError errs)
    show ?thesis
    proof (cases "error_details errs")
      case (Inl e)
      with assms Cons RaiseValidationError show ?thesis
        by (auto simp: while_true_invalid_raise asked_def s)
    next
      case (Inr d)
      with assms Cons RaiseValidationError
      have "while_true wid step (retry_message step d) sd (served step m ctx) = (x, sd', ctx')"
        by (simp add: while_true_retry)
      then have "transcript ctx' = transcript (served step m ctx) @ asked (served step m ctx) ctx'"
        by (rule while_true_asked)
      then have "transcript ctx' = transcript ctx @ (reply_to step m (Some r) # asked (served step m ctx) ctx')"
        unfolding s by simp
      then have "asked ctx ctx' = reply_to step m (Some r) # asked (served step m ctx) ctx'"
        by (rule asked_append)
      then show ?thesis by (simp add: Cons)
    qed
  qed (use assms Cons in \<open>auto simp: while_true_unfold asked_def s set_state_def split: if_splits\<close>)
qed

lemma for_steps_first_exchange:
  assumes "for_steps wid (s # rest) sd ctx = (x, sd', ctx')" "step_id s \<notin> dom sd" "\<not> hidden s sd"
  shows "asked ctx ctx' \<noteq> [] \<and>
         hd (asked ctx ctx') = reply_to s (message s) (case replies ctx of [] \<Rightarrow> None | r # rs \<Rightarrow> Some r)"
  using assms(1)
proof (cases rule: for_steps_Cons_cases)
  case skip
  with assms(2,3) show ?thesis by auto
next
  case (go sd1 ctx1)
  from while_true_first[OF go(3)] have 1: "asked ctx ctx1 \<noteq> []"
    "hd (asked ctx ctx1) = reply_to s (message s) (case replies ctx of [] \<Rightarrow> None | r # rs \<Rightarrow> Some r)"
    by simp_all
  from go(3) have p1: "transcript ctx1 = transcript ctx @ asked ctx ctx1" by (rule while_true_asked)
  from go(4) have p2: "transcript ctx' = transcript ctx1 @ asked ctx1 ctx'" by (rule for_steps_prefix)
  from asked_trans[OF p1 p2] have "asked ctx ctx' = asked ctx ctx1 @ asked ctx1 ctx'" by simp
  with 1 show ?thesis by simp
next
  case stop
  from while_true_first[OF stop(3)] show ?thesis by simp
qed

lemma fold_add_step:
  "steps (fold add_step ss w) = steps w @ ss \<and> wizard_id (fold add_step ss w) = wizard_id w"
  by (induction ss arbitrary: w) (simp_all add: add_step_def)

lemma retry_prompts:
  assumes "\<forall>errs \<in> set errss. \<exists>d. error_details errs = Inr d"
    and "replies ctx = map RaiseValidationError errss"
  shows "fst (while_true wid step m sd ctx) = Blocked \<and>
    map ex_message (asked ctx (snd (snd (while_true wid step m sd ctx)))) =
      m # map (\<lambda>errs. retry_message step (case error_details errs of Inl e \<Rightarrow> [] | Inr d \<Rightarrow> d)) errss"
  using assms
proof (induction errss arbitrary: ctx m)
  case Nil
  then show ?case by (simp add: while_true_Nil asked_def reply_to_def)
next
  case (Cons errs errss)
  from Cons.prems(1) obtain d where d: "error_details errs = Inr d" by auto
  from Cons.prems(2) have r: "replies ctx = RaiseValidationError errs # map RaiseValidationError errss"
    by simp
  let ?c = "served step m ctx"
  have w: "while_true wid step m sd ctx = while_true wid step (retry_message step d) sd ?c"
    using r d by (rule while_true_retry)
  have rc: "replies ?c = map RaiseValidationError errss" using r by simp
  from Cons.prems(1) have all: "\<forall>errs \<in> set errss. \<exists>d. error_details errs = Inr d" by simp
  note ih = Cons.IH[OF all rc, of "retry_message step d"]
  obtain x sd' c' where res: "while_true wid step (retry_message step d) sd ?c = (x, sd', c')"
    by (cases "while_true wid step (retry_message step d) sd ?c") auto
  have p: "transcript c' = transcript ?c @ asked ?c c'" using res by (rule while_true_asked)
  have "transcript ?c = transcript ctx @ [reply_to step m (Some (hd (replies ctx)))]" by simp
  with p have "transcript c' = transcript ctx @ (reply_to step m (Some (hd (replies ctx))) # asked ?c c')"
    by simp
  then have "asked ctx c' = reply_to step m (Some (hd (replies ctx))) # asked ?c c'"
    by (rule asked_append)
  with ih res w d show ?case by (simp add: reply_to_def)
qed

subsection \<open>The runs of the concrete wizards\<close>

lemmas step_simps = env_step_def scale_step_def note_step_def confirm_step_def

lemmas example_simps = declined_replies_def staging_replies_def two_failures_def
  plan_step_def review_step_def release_wizard_def details_step_def profile_wizard_def

lemma deploy_steps:
  "steps deploy_wizard = [env_step, scale_step, note_step, confirm_step]"
  "wizard_id deploy_wizard = ''deploy''"
  by (simp_all add: deploy_wizard_def add_step_def init_def)

lemma release_steps:
  "steps release_wizard = [plan_step, review_step, confirm_step]"
  "wizard_id release_wizard = ''release''"
  by (simp_all add: release_wizard_def add_step_def init_def)

lemmas eval_simps = execute_def load_session_def get_state_def set_state_def hidden_def
  elicit_def error_details_def format_error_def retry_message_def fresh_def
  while_true.simps required_declined_def cancelled_def unknown_action_def

lemma declined_ctx_eq:
  "declined_ctx =
     \<lparr>state = [''deploy'' \<mapsto> Dict [''env'' \<mapsto> Str ''production'', ''scale'' \<mapsto> StrList [''web'']]],
      replies = [],
      transcript =
     [\<lparr>ex_step = ''env'', ex_message = ''Which environment?'',
        ex_schema = SingleSelect [''development'', ''staging'', ''production''],
        ex_reply = Some (Accept (Str ''production''))\<rparr>,
      \<lparr>ex_step = ''scale'', ex_message = ''Which tiers?'',
        ex_schema = MultiSelect [''web'', ''worker''],
        ex_reply = Some (Accept (StrList [''web'']))\<rparr>,
      \<lparr>ex_step = ''note'', ex_message = ''Any note?'',
        ex_schema = StrType,
        ex_reply = Some Decline\<rparr>,
      \<lparr>ex_step = ''confirm'', ex_message = ''Confirm?'',
        ex_schema = StrType,
        ex_reply = Some Decline\<rparr>]\<rparr>"
  by (simp add: declined_ctx_def eval_simps deploy_steps step_simps example_simps)

lemma declined_run:
  "execute deploy_wizard (fresh declined_replies) =
     (Some (Inl (McpError (- 32600)
        (''Required step '' @ [CHR 0x27] @ ''confirm'' @ [CHR 0x27] @ '' declined.''))),
      declined_ctx)"
  unfolding declined_ctx_eq
  by (simp add: eval_simps deploy_steps step_simps example_simps)

lemma cancelled_ctx_eq:
  "cancelled_ctx =
     \<lparr>state = [''deploy'' \<mapsto> Dict [''env'' \<mapsto> Str ''staging'']],
      replies = [],
      transcript =
     [\<lparr>ex_step = ''env'', ex_message = ''Which environment?'',
        ex_schema = SingleSelect [''development'', ''staging'', ''production''],
        ex_reply = Some (Accept (Str ''staging''))\<rparr>,
      \<lparr>ex_step = ''note'', ex_message = ''Any note?'',
        ex_schema = StrType,
        ex_reply = Some Cancel\<rparr>]\<rparr>"
  by (simp add: cancelled_ctx_def eval_simps deploy_steps step_simps)

lemma cancelled_run:
  "execute deploy_wizard (fresh [Accept (Str ''staging''), Cancel]) =
     (Some (Inl (McpError (- 32000) ''Workflow aborted by user cancellation.'')), cancelled_ctx)"
  unfolding cancelled_ctx_eq
  by (simp add: eval_simps deploy_steps step_simps)

lemma staging_ctx_eq:
  "staging_ctx =
     \<lparr>state = [''deploy'' \<mapsto> Dict (Map.empty)],
      replies = [],
      transcript =
     [\<lparr>ex_step = ''env'', ex_message = ''Which environment?'',
        ex_schema = SingleSelect [''development'', ''staging'', ''production''],
        ex_reply = Some (Accept (Str ''staging''))\<rparr>,
      \<lparr>ex_step = ''note'', ex_message = ''Any note?'',
        ex_schema = StrType,
        ex_reply = Some Decline\<rparr>,
      \<lparr>ex_step = ''confirm'', ex_message = ''Confirm?'',
        ex_schema = StrType,
        ex_reply = Some (Accept (Str ''ok''))\<rparr>]\<rparr>"
  by (simp add: staging_ctx_def eval_simps deploy_steps step_simps example_simps)

lemma staging_run:
  "execute deploy_wizard (fresh staging_replies) =
     (Some (Inr [''env'' \<mapsto> Str ''staging'', ''confirm'' \<mapsto> Str ''ok'']), staging_ctx)"
  unfolding staging_ctx_eq
  by (simp add: eval_simps deploy_steps step_simps example_simps)

lemma asked_fresh: "asked (fresh rs) c = transcript c"
  by (simp add: asked_def fresh_def)

lemma resumed_fst:
  "fst (execute deploy_wizard (declined_ctx\<lparr>replies := [Accept (Str ''hi''), Accept (Str ''ok'')]\<rparr>))
      = Some (Inr [''env'' \<mapsto> Str ''production'', ''scale'' \<mapsto> StrList [''web''],
                 ''note'' \<mapsto> Str ''hi'', ''confirm'' \<mapsto> Str ''ok''])"
  unfolding declined_ctx_eq
  by (simp add: eval_simps deploy_steps step_simps)

lemma resumed_run:
  "execute deploy_wizard (declined_ctx\<lparr>replies := [Accept (Str ''hi''), Accept (Str ''ok'')]\<rparr>) =
     (Some (Inr [''env'' \<mapsto> Str ''production'', ''scale'' \<mapsto> StrList [''web''],
                 ''note'' \<mapsto> Str ''hi'', ''confirm'' \<mapsto> Str ''ok'']),
      snd (execute deploy_wizard
        (declined_ctx\<lparr>replies := [Accept (Str ''hi''), Accept (Str ''ok'')]\<rparr>)))"
  using resumed_fst by (metis prod.collapse)

lemma resumed_asked:
  "map ex_step (asked declined_ctx (snd (execute deploy_wizard
      (declined_ctx\<lparr>replies := [Accept (Str ''hi''), Accept (Str ''ok'')]\<rparr>)))) = [''note'', ''confirm'']"
  unfolding declined_ctx_eq
  by (simp add: eval_simps deploy_steps step_simps asked_def)

lemma restart_fst: "fst (execute deploy_wizard (staging_ctx\<lparr>replies := []\<rparr>)) = None"
  unfolding staging_ctx_eq by (simp add: eval_simps deploy_steps step_simps)

lemma restart_run:
  "execute deploy_wizard (staging_ctx\<lparr>replies := []\<rparr>) =
     (None, snd (execute deploy_wizard (staging_ctx\<lparr>replies := []\<rparr>)))"
  using restart_fst by (metis prod.collapse)

lemma release_ctx_state:
  "state release_ctx = [''release'' \<mapsto> Dict [''plan'' \<mapsto> Str ''basic'', ''review'' \<mapsto> Str ''ann'']]"
  by (simp add: release_ctx_def eval_simps release_steps plan_step_def review_step_def confirm_step_def)

lemma staging_prefix:
  "for_steps (wizard_id deploy_wizard) [env_step] (load_session (wizard_id deploy_wizard) (fresh staging_replies))
     (fresh staging_replies) =
   (Completed, [''env'' \<mapsto> Str ''staging''],
    snd (snd (for_steps ''deploy'' [env_step] Map.empty (fresh staging_replies))))"
proof -
  have "fst (for_steps ''deploy'' [env_step] Map.empty (fresh staging_replies)) = Completed"
    and "fst (snd (for_steps ''deploy'' [env_step] Map.empty (fresh staging_replies))) =
      [''env'' \<mapsto> Str ''staging'']"
    by (simp_all add: eval_simps step_simps example_simps)
  moreover have "load_session ''deploy'' (fresh staging_replies) = (Map.empty :: pyval answers)"
    by (simp add: load_session_def get_state_def fresh_def)
  ultimately show ?thesis by (simp add: deploy_steps prod_eq_iff)
qed




section \<open>The claims\<close>

subsection \<open>C1: order and resume\<close>

text \<open>
  C1: a run asks the steps in registration order (the step ids of its exchanges, with
  the repeated prompts of one step merged, are a subsequence of the registry's ids) and
  asks no step whose id is in the mapping it loaded. After a partial run (one that
  raised, or is still waiting for a reply) every answer accepted in it is in the stored
  mapping, so a second \<open>execute\<close> on the same session asks nothing for a key of that
  mapping and, when it returns, returns the stored value for each of them.
\<close>

theorem resume_skips_answered:
  assumes "execute w ctx = (r1, ctx1)" and "execute w (ctx1\<lparr>replies := rs\<rparr>) = (r2, ctx2)"
  shows "subseq (remdups_adj (map ex_step (asked ctx ctx1))) (map step_id (steps w)) \<and>
    (\<forall>e \<in> set (asked ctx ctx1). ex_step e \<notin> dom (load_session (wizard_id w) ctx)) \<and>
    ((\<forall>ans. r1 \<noteq> Some (Inr ans)) \<longrightarrow>
       (\<forall>e \<in> set (asked ctx ctx1). \<forall>d. ex_reply e = Some (Accept d) \<longrightarrow>
          load_session (wizard_id w) ctx1 (ex_step e) = Some d) \<and>
       (\<forall>k \<in> dom (load_session (wizard_id w) ctx1).
          (\<forall>e2 \<in> set (asked ctx1 ctx2). ex_step e2 \<noteq> k) \<and>
          (\<forall>ans. r2 = Some (Inr ans) \<longrightarrow> ans k = load_session (wizard_id w) ctx1 k)))"
proof -
  from assms(1) obtain x sd c1 where
    f: "for_steps (wizard_id w) (steps w) (load_session (wizard_id w) ctx) ctx = (x, sd, c1)"
    and a: "asked ctx ctx1 = asked ctx c1"
    by (rule execute_for_steps)
  have 1: "subseq (remdups_adj (map ex_step (asked ctx ctx1))) (map step_id (steps w))"
    using for_steps_order[OF f] by (simp add: a)
  have 2: "\<forall>e \<in> set (asked ctx ctx1). ex_step e \<notin> dom (load_session (wizard_id w) ctx)"
    using for_steps_labels[OF f] by (simp add: a)
  let ?l = "load_session (wizard_id w) ctx1"
  from assms(2) obtain x2 sd2 c2 where
    f2: "for_steps (wizard_id w) (steps w) ?l (ctx1\<lparr>replies := rs\<rparr>) = (x2, sd2, c2)"
    and a2: "asked ctx1 ctx2 = asked ctx1 c2"
    and r2: "r2 = (case x2 of Completed \<Rightarrow> Some (Inr sd2) | Raised e \<Rightarrow> Some (Inl e) | Blocked \<Rightarrow> None)"
    by (rule execute_for_steps) simp
  have 3: "\<forall>e2 \<in> set (asked ctx1 ctx2). ex_step e2 \<notin> dom ?l"
    using for_steps_labels[OF f2] by (simp add: a2)
  have m: "?l \<subseteq>\<^sub>m sd2" using f2 by (rule for_steps_mono)
  have 4: "ans k = ?l k" if "k \<in> dom ?l" "r2 = Some (Inr ans)" for k ans
  proof -
    from that(2) r2 have "ans = sd2" by (cases x2) auto
    with m that(1) show ?thesis by (simp add: map_le_def)
  qed
  have 5: "\<forall>e \<in> set (asked ctx ctx1). \<forall>d. ex_reply e = Some (Accept d) \<longrightarrow> ?l (ex_step e) = Some d"
    if "\<forall>ans. r1 \<noteq> Some (Inr ans)"
    using assms(1) that by (rule execute_partial_accepted)
  from 1 2 3 4 5 show ?thesis by blast
qed

theorem resume_skips_answered_witness:
  "map ex_step (asked (fresh declined_replies) declined_ctx) = [''env'', ''scale'', ''note'', ''confirm''] \<and>
   subseq [''env'', ''scale'', ''note'', ''confirm''] (map step_id (steps deploy_wizard)) \<and>
   load_session ''deploy'' declined_ctx ''env'' = Some (Str ''production'') \<and>
   map ex_step (asked declined_ctx (snd (execute deploy_wizard
      (declined_ctx\<lparr>replies := [Accept (Str ''hi''), Accept (Str ''ok'')]\<rparr>)))) = [''note'', ''confirm''] \<and>
   fst (execute deploy_wizard (declined_ctx\<lparr>replies := [Accept (Str ''hi''), Accept (Str ''ok'')]\<rparr>)) =
     Some (Inr [''env'' \<mapsto> Str ''production'', ''scale'' \<mapsto> StrList [''web''],
                ''note'' \<mapsto> Str ''hi'', ''confirm'' \<mapsto> Str ''ok''])"
proof -
  note t = resume_skips_answered[OF declined_run resumed_run]
  have a: "map ex_step (asked (fresh declined_replies) declined_ctx) = [''env'', ''scale'', ''note'', ''confirm'']"
    by (simp add: asked_fresh declined_ctx_eq)
  from t have "subseq (remdups_adj (map ex_step (asked (fresh declined_replies) declined_ctx)))
      (map step_id (steps deploy_wizard))" by blast
  then have s: "subseq [''env'', ''scale'', ''note'', ''confirm''] (map step_id (steps deploy_wizard))"
    by (simp add: a)
  have l: "load_session ''deploy'' declined_ctx ''env'' = Some (Str ''production'')"
    by (simp add: load_session_def get_state_def declined_ctx_eq)
  from a s l resumed_asked resumed_fst show ?thesis by blast
qed

subsection \<open>C2: steps hidden by their condition\<close>

text \<open>
  C2, as claimed: a step whose condition is false on the answers collected so far
  (those resumed from the store included) is never asked and its id never appears in
  the final answers. The code tests \<^verbatim>\<open>step.step_id in session_data\<close> first and skips
  an answered step without evaluating its condition, so the stored answer stays. Here
  \<open>plan\<close> is shown only while \<open>review\<close> has no answer; a first run accepts both and is
  cancelled at \<open>confirm\<close>. In the second run the condition of \<open>plan\<close> is false on the
  resumed answers, and \<open>plan\<close> is in the returned answers all the same.
\<close>

theorem condition_false_answer_kept:
  "condition plan_step \<noteq> None \<and>
   hidden plan_step (load_session ''release'' release_ctx) \<and>
   fst (execute release_wizard (release_ctx\<lparr>replies := [Accept (Str ''ok'')]\<rparr>)) =
     Some (Inr [''plan'' \<mapsto> Str ''basic'', ''review'' \<mapsto> Str ''ann'', ''confirm'' \<mapsto> Str ''ok''])"
proof -
  have 1: "condition plan_step \<noteq> None" by (simp add: plan_step_def)
  have 2: "hidden plan_step (load_session ''release'' release_ctx)"
    by (simp add: hidden_def load_session_def get_state_def release_ctx_state plan_step_def)
  have 3: "fst (execute release_wizard (release_ctx\<lparr>replies := [Accept (Str ''ok'')]\<rparr>)) =
     Some (Inr [''plan'' \<mapsto> Str ''basic'', ''review'' \<mapsto> Str ''ann'', ''confirm'' \<mapsto> Str ''ok''])"
    by (simp add: eval_simps release_steps release_ctx_state plan_step_def review_step_def confirm_step_def)
  from 1 2 3 show ?thesis by blast
qed

text \<open>
  C2, as amended: in a wizard with unique step ids, when the loop reaches a step whose
  condition is false on the answers collected so far, no prompt of the run belongs to
  that step; and if moreover the step's id is not among those answers, the id is
  neither in the returned answers nor in the stored mapping.
\<close>

theorem hidden_step_not_asked:
  assumes "execute w ctx = (res, ctx')" and "steps w = pre @ step # post"
    and "distinct (map step_id (steps w))"
    and "for_steps (wizard_id w) pre (load_session (wizard_id w) ctx) ctx = (Completed, sd1, ctx1)"
    and "hidden step sd1"
  shows "(\<forall>e \<in> set (asked ctx ctx'). ex_step e \<noteq> step_id step) \<and>
         (step_id step \<notin> dom sd1 \<longrightarrow>
            (\<forall>ans. res = Some (Inr ans) \<longrightarrow> step_id step \<notin> dom ans) \<and>
            step_id step \<notin> dom (load_session (wizard_id w) ctx'))"
proof -
  from assms(1) obtain x sd c1 where
    f: "for_steps (wizard_id w) (steps w) (load_session (wizard_id w) ctx) ctx = (x, sd, c1)"
    and a: "asked ctx ctx' = asked ctx c1"
    and r: "res = (case x of Completed \<Rightarrow> Some (Inr sd) | Raised e \<Rightarrow> Some (Inl e) | Blocked \<Rightarrow> None)"
    by (rule execute_for_steps)
  from f assms(2,4) have "for_steps (wizard_id w) (step # post) sd1 ctx1 = (x, sd, c1)"
    by (simp add: for_steps_append)
  with assms(5) have g: "for_steps (wizard_id w) post sd1 ctx1 = (x, sd, c1)"
    by (auto split: if_splits)
  have p1: "transcript ctx1 = transcript ctx @ asked ctx ctx1"
    using assms(4) by (rule for_steps_prefix)
  have p2: "transcript c1 = transcript ctx1 @ asked ctx1 c1"
    using g by (rule for_steps_prefix)
  have sp: "asked ctx c1 = asked ctx ctx1 @ asked ctx1 c1"
    using asked_trans[OF p1 p2] by simp
  from assms(3) have "distinct (map step_id pre @ step_id step # map step_id post)"
    by (simp add: assms(2))
  then have n1: "step_id step \<notin> step_id ` set pre" and n2: "step_id step \<notin> step_id ` set post"
    by simp_all
  have 1: "\<forall>e \<in> set (asked ctx ctx'). ex_step e \<noteq> step_id step"
  proof
    fix e assume "e \<in> set (asked ctx ctx')"
    then have "e \<in> set (asked ctx ctx1) \<or> e \<in> set (asked ctx1 c1)" by (simp add: a sp)
    with for_steps_labels[OF assms(4)] for_steps_labels[OF g]
    have "ex_step e \<in> step_id ` set pre \<or> ex_step e \<in> step_id ` set post" by blast
    with n1 n2 show "ex_step e \<noteq> step_id step" by metis
  qed
  have d: "dom sd \<subseteq> dom sd1 \<union> step_id ` set post" using g by (rule for_steps_dom)
  have 2: "step_id step \<notin> dom ans" if "step_id step \<notin> dom sd1" "res = Some (Inr ans)" for ans
  proof -
    from that(2) r have "ans = sd" by (cases x) auto
    with d n2 that(1) show ?thesis by auto
  qed
  have 3: "step_id step \<notin> dom (load_session (wizard_id w) ctx')" if "step_id step \<notin> dom sd1"
    using execute_load[OF assms(1) f] d n2 that by auto
  from 1 2 3 show ?thesis by blast
qed

theorem hidden_step_not_asked_witness:
  "hidden scale_step [''env'' \<mapsto> Str ''staging''] \<and>
   distinct (map step_id (steps deploy_wizard)) \<and>
   ''scale'' \<notin> ex_step ` set (asked (fresh staging_replies) staging_ctx) \<and>
   map ex_step (asked (fresh staging_replies) staging_ctx) = [''env'', ''note'', ''confirm''] \<and>
   ''scale'' \<notin> dom [''env'' \<mapsto> Str ''staging'', ''confirm'' \<mapsto> Str ''ok''] \<and>
   ''scale'' \<notin> dom (load_session ''deploy'' staging_ctx)"
proof -
  have s: "steps deploy_wizard = [env_step] @ scale_step # [note_step, confirm_step]"
    by (simp add: deploy_steps)
  have d: "distinct (map step_id (steps deploy_wizard))"
    by (simp add: deploy_steps step_simps)
  have h: "hidden scale_step [''env'' \<mapsto> Str ''staging'']"
    by (simp add: hidden_def scale_step_def)
  note t = hidden_step_not_asked[OF staging_run s d staging_prefix h]
  have n: "step_id scale_step \<notin> dom [''env'' \<mapsto> Str ''staging'']"
    by (simp add: scale_step_def)
  from t have 1: "\<forall>e \<in> set (asked (fresh staging_replies) staging_ctx). ex_step e \<noteq> step_id scale_step"
    by blast
  then have 1: "''scale'' \<notin> ex_step ` set (asked (fresh staging_replies) staging_ctx)"
    by (auto simp: scale_step_def)
  from t n have "step_id scale_step \<notin> dom [''env'' \<mapsto> Str ''staging'', ''confirm'' \<mapsto> Str ''ok'']"
    and "step_id scale_step \<notin> dom (load_session (wizard_id deploy_wizard) staging_ctx)"
    by blast+
  then have 2: "''scale'' \<notin> dom [''env'' \<mapsto> Str ''staging'', ''confirm'' \<mapsto> Str ''ok'']"
    and 3: "''scale'' \<notin> dom (load_session ''deploy'' staging_ctx)"
    by (simp_all add: scale_step_def deploy_steps)
  have 4: "map ex_step (asked (fresh staging_replies) staging_ctx) = [''env'', ''note'', ''confirm'']"
    by (simp add: asked_fresh staging_ctx_eq)
  from h d 1 2 3 4 show ?thesis by blast
qed

subsection \<open>C3: a required step is declined\<close>

text \<open>
  C3: when the user declines a prompt of a step that is required (every registered step
  with that id is), \<open>execute\<close> raises \<^verbatim>\<open>McpError(-32600, "Required step '<id>' declined.")\<close>
  with that step's id, and the declined prompt is the last one of the run: it stands
  nowhere before the end of the run's exchanges.
\<close>

theorem required_decline_aborts:
  assumes "execute w ctx = (res, ctx')"
    and "e \<in> set (asked ctx ctx')" and "ex_reply e = Some Decline"
    and "\<forall>s \<in> set (steps w). step_id s = ex_step e \<longrightarrow> is_required s"
  shows "res = Some (Inl (McpError (- 32600)
                 (''Required step '' @ [CHR 0x27] @ ex_step e @ [CHR 0x27] @ '' declined.''))) \<and>
         e \<notin> set (butlast (asked ctx ctx')) \<and> last (asked ctx ctx') = e"
proof -
  have *: "x = Raised (required_declined (ex_step e)) \<and> e \<notin> set (butlast (asked ctx c1)) \<and>
           last (asked ctx c1) = e"
    if f: "for_steps (wizard_id w) (steps w) (load_session (wizard_id w) ctx) ctx = (x, sd, c1)"
      and e: "e \<in> set (asked ctx c1)"
    for x sd c1
  proof -
    note rd = for_steps_required_decline[OF f assms(4)]
    from rd assms(3) have nb: "e \<notin> set (butlast (asked ctx c1))" by blast
    with e have "asked ctx c1 \<noteq> [] \<and> last (asked ctx c1) = e" by (rule in_set_not_butlast)
    with rd assms(3) nb show ?thesis by simp
  qed
  from assms(1) have "res = Some (Inl (required_declined (ex_step e))) \<and>
      e \<notin> set (butlast (asked ctx ctx')) \<and> last (asked ctx ctx') = e"
  proof (cases rule: execute_cases)
    case (returned sd c1)
    with *[OF returned(1)] assms(2) show ?thesis by simp
  next
    case (raised e sd)
    with *[OF raised(1)] assms(2) show ?thesis by simp
  next
    case (blocked sd)
    with *[OF blocked(1)] assms(2) show ?thesis by simp
  qed
  then show ?thesis by (simp add: required_declined_def)
qed

theorem required_decline_aborts_witness:
  "fst (execute deploy_wizard (fresh declined_replies)) =
     Some (Inl (McpError (- 32600)
       (''Required step '' @ [CHR 0x27] @ ''confirm'' @ [CHR 0x27] @ '' declined.''))) \<and>
   last (asked (fresh declined_replies) declined_ctx) =
     \<lparr>ex_step = ''confirm'', ex_message = ''Confirm?'', ex_schema = StrType,
        ex_reply = Some Decline\<rparr> \<and>
   length (asked (fresh declined_replies) declined_ctx) = 4"
proof -
  let ?e = "\<lparr>ex_step = ''confirm'', ex_message = ''Confirm?'', ex_schema = StrType,
        ex_reply = Some (Decline :: pyval reply)\<rparr>"
  have 1: "?e \<in> set (asked (fresh declined_replies) declined_ctx)"
    by (simp add: asked_fresh declined_ctx_eq)
  have 2: "ex_reply ?e = Some Decline" by simp
  have 3: "\<forall>s \<in> set (steps deploy_wizard). step_id s = ex_step ?e \<longrightarrow> is_required s"
    by (simp add: deploy_steps step_simps)
  from required_decline_aborts[OF declined_run 1 2 3]
  have "last (asked (fresh declined_replies) declined_ctx) = ?e" by blast
  moreover have "length (asked (fresh declined_replies) declined_ctx) = 4"
    by (simp add: asked_fresh declined_ctx_eq)
  ultimately show ?thesis by (simp add: declined_run)
qed

subsection \<open>C4: cancel\<close>

text \<open>
  C4: a \<open>Cancel\<close> reply to any prompt, whatever the step and its \<open>is_required\<close> flag,
  makes \<open>execute\<close> raise \<^verbatim>\<open>McpError(-32000, "Workflow aborted by user cancellation.")\<close>;
  the cancelled prompt is the last one of the run, and the session entry is not
  cleared: it holds the answers accepted so far, or is untouched when there are none.
\<close>

theorem cancel_aborts:
  assumes "execute w ctx = (res, ctx')"
    and "e \<in> set (asked ctx ctx')" and "ex_reply e = Some Cancel"
  shows "res = Some (Inl (McpError (- 32000) ''Workflow aborted by user cancellation.'')) \<and>
         e \<notin> set (butlast (asked ctx ctx')) \<and> last (asked ctx ctx') = e \<and>
         state ctx' (wizard_id w) =
           (if list_ex accepted (asked ctx ctx')
            then Some (Dict (record_accepted (asked ctx ctx') (load_session (wizard_id w) ctx)))
            else state ctx (wizard_id w))"
proof -
  have *: "x = Raised cancelled \<and> e \<notin> set (butlast (asked ctx c1)) \<and> last (asked ctx c1) = e"
    if f: "for_steps (wizard_id w) (steps w) (load_session (wizard_id w) ctx) ctx = (x, sd, c1)"
      and e: "e \<in> set (asked ctx c1)"
    for x sd c1
  proof -
    from for_steps_cancel[OF f] assms(3) have nb: "e \<notin> set (butlast (asked ctx c1))" by blast
    with e have "asked ctx c1 \<noteq> [] \<and> last (asked ctx c1) = e" by (rule in_set_not_butlast)
    with for_steps_cancel[OF f] assms(3) nb show ?thesis by simp
  qed
  from assms(1) have r: "res = Some (Inl cancelled) \<and> e \<notin> set (butlast (asked ctx ctx')) \<and>
      last (asked ctx ctx') = e"
  proof (cases rule: execute_cases)
    case (returned sd c1)
    with *[OF returned(1)] assms(2) show ?thesis by simp
  next
    case (raised e sd)
    with *[OF raised(1)] assms(2) show ?thesis by simp
  next
    case (blocked sd)
    with *[OF blocked(1)] assms(2) show ?thesis by simp
  qed
  then have "\<forall>ans. res \<noteq> Some (Inr ans)" by simp
  from execute_store[OF assms(1) this] r show ?thesis by (simp add: cancelled_def)
qed

theorem cancel_aborts_witness:
  "fst (execute deploy_wizard (fresh [Accept (Str ''staging''), Cancel])) =
     Some (Inl (McpError (- 32000) ''Workflow aborted by user cancellation.'')) \<and>
   last (asked (fresh [Accept (Str ''staging''), Cancel]) cancelled_ctx) =
     \<lparr>ex_step = ''note'', ex_message = ''Any note?'', ex_schema = StrType,
        ex_reply = Some Cancel\<rparr> \<and>
   state cancelled_ctx ''deploy'' = Some (Dict [''env'' \<mapsto> Str ''staging''])"
proof -
  let ?e = "\<lparr>ex_step = ''note'', ex_message = ''Any note?'', ex_schema = StrType,
        ex_reply = Some (Cancel :: pyval reply)\<rparr>"
  have 1: "?e \<in> set (asked (fresh [Accept (Str ''staging''), Cancel]) cancelled_ctx)"
    by (simp add: asked_fresh cancelled_ctx_eq)
  have 2: "ex_reply ?e = Some Cancel" by simp
  from cancel_aborts[OF cancelled_run 1 2]
  have "last (asked (fresh [Accept (Str ''staging''), Cancel]) cancelled_ctx) = ?e" by blast
  moreover have "state cancelled_ctx ''deploy'' = Some (Dict [''env'' \<mapsto> Str ''staging''])"
    by (simp add: cancelled_ctx_eq)
  ultimately show ?thesis by (simp add: cancelled_run)
qed

subsection \<open>C5: an optional step is declined\<close>




subsection \<open>C6: what the store holds\<close>

text \<open>
  C6: whenever a run has not returned (it raised, or it is waiting for the reply to
  its latest prompt), the stored mapping is the loaded mapping updated with exactly
  the answers accepted so far: it contains the loaded mapping and every accepted
  answer. A run that returns leaves the empty mapping, and returns the loaded mapping
  updated with the accepted answers. No other key of the store is written.
\<close>

theorem accepted_answers_persisted:
  assumes "execute w ctx = (res, ctx')"
  shows "((\<forall>ans. res \<noteq> Some (Inr ans)) \<longrightarrow>
            load_session (wizard_id w) ctx' =
              record_accepted (asked ctx ctx') (load_session (wizard_id w) ctx) \<and>
            load_session (wizard_id w) ctx \<subseteq>\<^sub>m load_session (wizard_id w) ctx' \<and>
            (\<forall>e \<in> set (asked ctx ctx'). \<forall>d. ex_reply e = Some (Accept d) \<longrightarrow>
               load_session (wizard_id w) ctx' (ex_step e) = Some d) \<and>
            (list_ex accepted (asked ctx ctx') \<longrightarrow>
               state ctx' (wizard_id w) = Some (Dict
                 (record_accepted (asked ctx ctx') (load_session (wizard_id w) ctx))))) \<and>
         (\<forall>ans. res = Some (Inr ans) \<longrightarrow>
            ans = record_accepted (asked ctx ctx') (load_session (wizard_id w) ctx) \<and>
            state ctx' (wizard_id w) = Some (Dict Map.empty)) \<and>
         (\<forall>k. k \<noteq> wizard_id w \<longrightarrow> state ctx' k = state ctx k)"
proof -
  let ?l = "load_session (wizard_id w) ctx"
  have part: "load_session (wizard_id w) ctx' = record_accepted (asked ctx ctx') ?l \<and>
      ?l \<subseteq>\<^sub>m load_session (wizard_id w) ctx' \<and>
      (\<forall>e \<in> set (asked ctx ctx'). \<forall>d. ex_reply e = Some (Accept d) \<longrightarrow>
               load_session (wizard_id w) ctx' (ex_step e) = Some d) \<and>
      (list_ex accepted (asked ctx ctx') \<longrightarrow>
         state ctx' (wizard_id w) = Some (Dict (record_accepted (asked ctx ctx') ?l)))"
    if n: "\<forall>ans. res \<noteq> Some (Inr ans)"
  proof -
    note s = execute_store[OF assms n]
    obtain x sd where f: "for_steps (wizard_id w) (steps w) ?l ctx = (x, sd, ctx')"
      using assms n by (cases rule: execute_cases) auto
    from for_steps_store[OF f] have sd: "sd = record_accepted (asked ctx ctx') ?l" by simp
    from for_steps_mono[OF f] for_steps_accepted[OF f] s sd show ?thesis by simp
  qed
  have full: "ans = record_accepted (asked ctx ctx') ?l \<and> state ctx' (wizard_id w) = Some (Dict Map.empty)"
    if "res = Some (Inr ans)" for ans
    using assms that
  proof (cases rule: execute_cases)
    case (returned sd c1)
    from returned(3) have a: "asked ctx ctx' = asked ctx c1" by simp
    from returned(3) have s: "state ctx' (wizard_id w) = Some (Dict Map.empty)"
      by (simp add: set_state_def)
    from for_steps_store[OF returned(1)] returned(2) that a s show ?thesis by simp
  qed auto
  have other: "state ctx' k = state ctx k" if "k \<noteq> wizard_id w" for k
    using assms
  proof (cases rule: execute_cases)
    case (returned sd c1)
    from returned(3) that have "state ctx' k = state c1 k" by (simp add: set_state_def)
    with for_steps_store[OF returned(1)] that show ?thesis by simp
  next
    case (raised e sd)
    with for_steps_store[OF raised(1)] that show ?thesis by simp
  next
    case (blocked sd)
    with for_steps_store[OF blocked(1)] that show ?thesis by simp
  qed
  from part full other show ?thesis by blast
qed

theorem accepted_answers_persisted_witness:
  "load_session ''deploy'' declined_ctx =
     [''env'' \<mapsto> Str ''production'', ''scale'' \<mapsto> StrList [''web'']] \<and>
   record_accepted (asked (fresh declined_replies) declined_ctx) Map.empty =
     [''env'' \<mapsto> Str ''production'', ''scale'' \<mapsto> StrList [''web'']] \<and>
   state staging_ctx ''deploy'' = Some (Dict Map.empty)"
proof -
  have n: "\<forall>ans. Some (Inl (McpError (- 32600)
        (''Required step '' @ [CHR 0x27] @ ''confirm'' @ [CHR 0x27] @ '' declined.''))) \<noteq>
        Some (Inr (ans :: pyval answers))" by simp
  have l: "load_session ''deploy'' (fresh declined_replies) = (Map.empty :: pyval answers)"
    by (simp add: load_session_def get_state_def fresh_def)
  from accepted_answers_persisted[OF declined_run] n
  have "load_session (wizard_id deploy_wizard) declined_ctx =
      record_accepted (asked (fresh declined_replies) declined_ctx)
        (load_session (wizard_id deploy_wizard) (fresh declined_replies))"
    by blast
  then have 1: "load_session ''deploy'' declined_ctx =
      record_accepted (asked (fresh declined_replies) declined_ctx) Map.empty"
    by (simp add: l deploy_steps)
  have 2: "record_accepted (asked (fresh declined_replies) declined_ctx) Map.empty =
     [''env'' \<mapsto> Str ''production'', ''scale'' \<mapsto> StrList [''web'']]"
    by (simp add: asked_fresh declined_ctx_eq)
  from accepted_answers_persisted[OF staging_run]
  have "state staging_ctx (wizard_id deploy_wizard) = Some (Dict Map.empty)" by blast
  then have 3: "state staging_ctx ''deploy'' = Some (Dict Map.empty)" by (simp add: deploy_steps)
  from 1 2 3 show ?thesis by simp
qed

subsection \<open>C7: completion clears the session\<close>

text \<open>
  C7: after \<open>execute\<close> has returned, the store holds the empty mapping under the
  wizard id while the returned answers hold every accepted answer; a further
  \<open>execute\<close> on that session loads nothing and, unless the first step is hidden by its
  condition on the empty mapping, starts by asking the first step with its original
  message.
\<close>

theorem completion_clears_session:
  assumes "execute w ctx = (Some (Inr ans), ctx')" and "execute w (ctx'\<lparr>replies := rs\<rparr>) = (r2, ctx2)"
  shows "state ctx' (wizard_id w) = Some (Dict Map.empty) \<and>
    load_session (wizard_id w) ctx' = Map.empty \<and>
    ans = record_accepted (asked ctx ctx') (load_session (wizard_id w) ctx) \<and>
    (\<forall>e \<in> set (asked ctx ctx'). \<forall>d. ex_reply e = Some (Accept d) \<longrightarrow> ans (ex_step e) = Some d) \<and>
    (\<forall>s rest. steps w = s # rest \<and> \<not> hidden s Map.empty \<longrightarrow>
       asked ctx' ctx2 \<noteq> [] \<and> ex_step (hd (asked ctx' ctx2)) = step_id s \<and>
       ex_message (hd (asked ctx' ctx2)) = message s)"
proof -
  from assms(1) obtain x sd c1 where
    f: "for_steps (wizard_id w) (steps w) (load_session (wizard_id w) ctx) ctx = (x, sd, c1)"
    and a: "asked ctx ctx' = asked ctx c1"
    and r: "Some (Inr ans) = (case x of Completed \<Rightarrow> Some (Inr sd) | Raised e \<Rightarrow> Some (Inl e) | Blocked \<Rightarrow> None)"
    and c: "x = Completed \<longrightarrow> ctx' = set_state (wizard_id w) (Dict Map.empty) c1"
    by (rule execute_for_steps)
  from r have x: "x = Completed" and sd: "sd = ans" by (cases x; simp)+
  from c x have 1: "state ctx' (wizard_id w) = Some (Dict Map.empty)" by (simp add: set_state_def)
  then have 2: "load_session (wizard_id w) ctx' = Map.empty"
    by (simp add: load_session_def get_state_def)
  from for_steps_store[OF f] have 3: "ans = record_accepted (asked ctx ctx') (load_session (wizard_id w) ctx)"
    by (simp add: a sd)
  from for_steps_accepted[OF f] have 4:
    "\<forall>e \<in> set (asked ctx ctx'). \<forall>d. ex_reply e = Some (Accept d) \<longrightarrow> ans (ex_step e) = Some d"
    by (simp add: a sd)
  have 5: "asked ctx' ctx2 \<noteq> [] \<and> ex_step (hd (asked ctx' ctx2)) = step_id s \<and>
       ex_message (hd (asked ctx' ctx2)) = message s"
    if "steps w = s # rest" "\<not> hidden s Map.empty" for s rest
  proof -
    from assms(2) obtain x2 sd2 c2 where
      f2: "for_steps (wizard_id w) (steps w) Map.empty (ctx'\<lparr>replies := rs\<rparr>) = (x2, sd2, c2)"
      and a2: "asked ctx' ctx2 = asked ctx' c2"
      by (rule execute_for_steps) (simp add: 2)
    from for_steps_first[OF f2[unfolded that(1)] _ that(2)] a2 show ?thesis by simp
  qed
  from 1 2 3 4 5 show ?thesis by blast
qed

theorem completion_clears_session_witness:
  "fst (execute deploy_wizard (fresh staging_replies)) =
     Some (Inr [''env'' \<mapsto> Str ''staging'', ''confirm'' \<mapsto> Str ''ok'']) \<and>
   state staging_ctx ''deploy'' = Some (Dict Map.empty) \<and>
   \<not> hidden env_step (Map.empty :: pyval answers) \<and>
   ex_step (hd (asked staging_ctx (snd (execute deploy_wizard (staging_ctx\<lparr>replies := []\<rparr>))))) = ''env'' \<and>
   ex_message (hd (asked staging_ctx (snd (execute deploy_wizard (staging_ctx\<lparr>replies := []\<rparr>))))) =
     ''Which environment?''"
proof -
  note t = completion_clears_session[OF staging_run restart_run]
  have h: "\<not> hidden env_step (Map.empty :: pyval answers)"
    by (simp add: hidden_def env_step_def)
  have s: "steps deploy_wizard = env_step # [scale_step, note_step, confirm_step]"
    by (simp add: deploy_steps)
  from t have 1: "state staging_ctx (wizard_id deploy_wizard) = Some (Dict Map.empty)" by blast
  from t s h have 2:
    "ex_step (hd (asked staging_ctx (snd (execute deploy_wizard (staging_ctx\<lparr>replies := []\<rparr>))))) = step_id env_step \<and>
     ex_message (hd (asked staging_ctx (snd (execute deploy_wizard (staging_ctx\<lparr>replies := []\<rparr>))))) = message env_step"
    by blast
  from 1 2 h show ?thesis by (simp add: staging_run deploy_steps env_step_def)
qed

subsection \<open>C8: the prompt after a validation failure\<close>

text \<open>
  C8: after a validation failure the step is asked again with its original message
  followed by a listing of the field errors, one per line, built from the latest
  failure only. The code joins the entries of the listing with the string literal
  \<^verbatim>\<open>"\\n"\<close>, a backslash and the letter n, where the rest of the message uses
  newlines: with two field errors the listing is one line. The run below fails twice,
  first with two errors, then with one; its three prompts are the original message,
  the message with both errors of the first failure on one line, and the message with
  the error of the second failure alone.
\<close>

theorem retry_prompt_separator:
  "map ex_message (transcript (snd (execute profile_wizard (fresh two_failures)))) =
     [''Please provide additional profile details:'',
      ''Please provide additional profile details:'' @ [CHR 0x0A, CHR 0x0A] @
        ''Validation Error(s):'' @ [CHR 0x0A] @
        ''- age: too small'' @ [CHR 0x5C, CHR ''n''] @ ''- bio: required'' @
        [CHR 0x0A, CHR 0x0A] @ ''Please correct your input.'',
      ''Please provide additional profile details:'' @ [CHR 0x0A, CHR 0x0A] @
        ''Validation Error(s):'' @ [CHR 0x0A] @
        ''- age: not a number'' @
        [CHR 0x0A, CHR 0x0A] @ ''Please correct your input.'']"
  by (simp add: eval_simps profile_wizard_def details_step_def two_failures_def add_step_def init_def)

subsection \<open>C9: malformed steps\<close>

text \<open>
  C9, as claimed: constructing a step with an empty \<open>step_id\<close> or a malformed schema, or
  registering a step whose \<open>step_id\<close> is already in the wizard, fails before any
  execution begins. The code has no such check: \<^verbatim>\<open>FormStep\<close> is a plain dataclass and
  \<^verbatim>\<open>add_step\<close> appends. Here a step with an empty id and a multi select without
  options is registered twice, and the result is a wizard that holds it twice.
\<close>

theorem invalid_step_registered:
  "add_step blank_step (add_step blank_step (init ''w'')) =
     \<lparr>wizard_id = ''w'', steps = [blank_step, blank_step]\<rparr> \<and>
   step_id blank_step = [] \<and> schema blank_step = MultiSelect [] \<and>
   \<not> distinct (map step_id (steps (add_step blank_step (add_step blank_step (init ''w'')))))"
  by (simp add: add_step_def init_def blank_step_def)

text \<open>
  C9, as amended: whatever steps are registered, in whatever number, the registry is
  exactly the sequence of the registered steps, in the order of registration and with
  every field as given (steps with an empty id, with a multi select without options or
  with an id registered before are kept like any other), and the wizard id is the one
  given at construction. \<open>execute\<close> on such a wizard starts as on any other: unless the
  first registered step already has an answer or is hidden, the first call of \<open>elicit\<close>
  carries that step's id, message and schema unchanged.
\<close>

theorem registration_accepts_every_step:
  "steps (fold add_step ss (init wid)) = ss \<and>
   wizard_id (fold add_step ss (init wid)) = wid \<and>
   (\<forall>s rest ctx. ss = s # rest \<and> step_id s \<notin> dom (load_session wid ctx) \<and>
        \<not> hidden s (load_session wid ctx) \<longrightarrow>
      asked ctx (snd (execute (fold add_step ss (init wid)) ctx)) \<noteq> [] \<and>
      hd (asked ctx (snd (execute (fold add_step ss (init wid)) ctx))) =
        \<lparr>ex_step = step_id s, ex_message = message s, ex_schema = schema s,
         ex_reply = (case replies ctx of [] \<Rightarrow> None | r # rs \<Rightarrow> Some r)\<rparr>)"
proof -
  let ?w = "fold add_step ss (init wid)"
  have 1: "steps ?w = ss" and 2: "wizard_id ?w = wid"
    using fold_add_step[of ss "init wid"] by (simp_all add: init_def)
  have 3: "asked ctx (snd (execute ?w ctx)) \<noteq> [] \<and>
      hd (asked ctx (snd (execute ?w ctx))) =
        \<lparr>ex_step = step_id s, ex_message = message s, ex_schema = schema s,
         ex_reply = (case replies ctx of [] \<Rightarrow> None | r # rs \<Rightarrow> Some r)\<rparr>"
    if "ss = s # rest" "step_id s \<notin> dom (load_session wid ctx)" "\<not> hidden s (load_session wid ctx)"
    for s rest ctx
  proof -
    obtain res ctx' where e: "execute ?w ctx = (res, ctx')" by (cases "execute ?w ctx") auto
    then obtain x sd c1 where
      f: "for_steps (wizard_id ?w) (steps ?w) (load_session (wizard_id ?w) ctx) ctx = (x, sd, c1)"
      and a: "asked ctx ctx' = asked ctx c1"
      by (rule execute_for_steps)
    have "for_steps wid (s # rest) (load_session wid ctx) ctx = (x, sd, c1)"
      using f[unfolded 1 2] unfolding that(1) .
    from for_steps_first_exchange[OF this that(2,3)] show ?thesis
      by (simp add: e a reply_to_def)
  qed
  from 1 2 3 show ?thesis by blast
qed

theorem registration_accepts_every_step_witness:
  "steps (fold add_step [blank_step, blank_step] (init ''w'')) = [blank_step, blank_step] \<and>
   wizard_id (fold add_step [blank_step, blank_step] (init ''w'')) = ''w'' \<and>
   hd (asked (fresh []) (snd (execute (fold add_step [blank_step, blank_step] (init ''w'')) (fresh [])))) =
     \<lparr>ex_step = [], ex_message = ''Pick'', ex_schema = MultiSelect [],
      ex_reply = (None :: pyval reply option)\<rparr>"
proof -
  have l: "load_session ''w'' (fresh []) = (Map.empty :: pyval answers)"
    by (simp add: load_session_def get_state_def fresh_def)
  have n: "step_id blank_step \<notin> dom (load_session ''w'' (fresh [] :: pyval Context))"
    by (simp add: l)
  have h: "\<not> hidden blank_step (load_session ''w'' (fresh [] :: pyval Context))"
    by (simp add: hidden_def blank_step_def)
  note t = registration_accepts_every_step[of "[blank_step, blank_step]" "''w''"]
  from t n h have "hd (asked (fresh []) (snd (execute (fold add_step [blank_step, blank_step] (init ''w'')) (fresh [])))) =
        \<lparr>ex_step = step_id blank_step, ex_message = message blank_step, ex_schema = schema blank_step,
         ex_reply = (case replies (fresh [] :: pyval Context) of [] \<Rightarrow> None | r # rs \<Rightarrow> Some r)\<rparr>"
    by blast
  then have 1: "hd (asked (fresh []) (snd (execute (fold add_step [blank_step, blank_step] (init ''w'')) (fresh [])))) =
     \<lparr>ex_step = [], ex_message = ''Pick'', ex_schema = MultiSelect [],
      ex_reply = (None :: pyval reply option)\<rparr>"
    by (simp add: blank_step_def fresh_def)
  from t have 2: "steps (fold add_step [blank_step, blank_step] (init ''w'')) = [blank_step, blank_step]"
    and 3: "wizard_id (fold add_step [blank_step, blank_step] (init ''w'')) = ''w''"
    by blast+
  from 1 2 3 show ?thesis by blast
qed

subsection \<open>C10: keys of the stored mapping that match no step\<close>

text \<open>
  C10: when the store holds a mapping \<open>m\<close> under the wizard id, a run that returns
  gives back \<open>m\<close> updated with the answers accepted in this run and nothing else: \<open>m\<close>
  is contained in the result, and every key that is no registered step id has the value
  it had in \<open>m\<close>. A wizard without steps asks nothing, resets the entry to the empty
  mapping and returns \<open>m\<close>.
\<close>

theorem stale_keys_returned:
  assumes "state ctx (wizard_id w) = Some (Dict m)"
  shows "(\<forall>answers ctx'. execute w ctx = (Some (Inr answers), ctx') \<longrightarrow>
            answers = record_accepted (asked ctx ctx') m \<and> m \<subseteq>\<^sub>m answers \<and>
            (\<forall>k. k \<notin> step_id ` set (steps w) \<longrightarrow> answers k = m k)) \<and>
         (steps w = [] \<longrightarrow>
            execute w ctx = (Some (Inr m), set_state (wizard_id w) (Dict Map.empty) ctx))"
proof -
  have l: "load_session (wizard_id w) ctx = m"
    using assms by (simp add: load_session_def get_state_def)
  have "answers = record_accepted (asked ctx ctx') m \<and> m \<subseteq>\<^sub>m answers \<and>
        (\<forall>k. k \<notin> step_id ` set (steps w) \<longrightarrow> answers k = m k)"
    if "execute w ctx = (Some (Inr answers), ctx')" for answers ctx'
    using that
  proof (cases rule: execute_cases)
    case (returned sd c1)
    from returned(2) have sd: "sd = answers" by simp
    note f = returned(1)[unfolded l sd]
    have 1: "answers = record_accepted (asked ctx ctx') m"
      using for_steps_store[OF f] returned(3) by simp
    have 2: "m \<subseteq>\<^sub>m answers" using f by (rule for_steps_mono)
    have 3: "dom answers \<subseteq> dom m \<union> step_id ` set (steps w)" using f by (rule for_steps_dom)
    have "answers k = m k" if "k \<notin> step_id ` set (steps w)" for k
    proof (cases "k \<in> dom m")
      case True
      with 2 show ?thesis by (simp add: map_le_def)
    next
      case False
      with 3 that have "k \<notin> dom answers" by auto
      with False show ?thesis by (simp add: domIff)
    qed
    with 1 2 show ?thesis by blast
  qed auto
  moreover have "execute w ctx = (Some (Inr m), set_state (wizard_id w) (Dict Map.empty) ctx)"
    if "steps w = []"
    using that l by (simp add: execute_def)
  ultimately show ?thesis by blast
qed

theorem stale_keys_returned_witness:
  "state stale_ctx (wizard_id deploy_wizard) = Some (Dict [''region'' \<mapsto> Str ''eu'']) \<and>
   fst (execute deploy_wizard stale_ctx) =
     Some (Inr [''region'' \<mapsto> Str ''eu'', ''env'' \<mapsto> Str ''staging'', ''confirm'' \<mapsto> Str ''ok'']) \<and>
   [''region'' \<mapsto> Str ''eu''] \<subseteq>\<^sub>m
     [''region'' \<mapsto> Str ''eu'', ''env'' \<mapsto> Str ''staging'', ''confirm'' \<mapsto> Str ''ok''] \<and>
   execute (init ''deploy'') stale_ctx =
     (Some (Inr [''region'' \<mapsto> Str ''eu'']), set_state ''deploy'' (Dict Map.empty) stale_ctx)"
proof -
  let ?ans = "[''region'' \<mapsto> Str ''eu'', ''env'' \<mapsto> Str ''staging'', ''confirm'' \<mapsto> Str ''ok'']"
  have h: "state stale_ctx (wizard_id deploy_wizard) = Some (Dict [''region'' \<mapsto> Str ''eu''])"
    by (simp add: stale_ctx_def deploy_wizard_def add_step_def init_def)
  have h2: "state stale_ctx (wizard_id (init ''deploy'')) = Some (Dict [''region'' \<mapsto> Str ''eu''])"
    by (simp add: stale_ctx_def init_def)
  have e: "fst (execute deploy_wizard stale_ctx) = Some (Inr ?ans)"
    by (simp add: run_simps stale_ctx_def deploy_simps)
  then have "execute deploy_wizard stale_ctx = (Some (Inr ?ans), snd (execute deploy_wizard stale_ctx))"
    by (metis prod.collapse)
  with stale_keys_returned[OF h] have m: "[''region'' \<mapsto> Str ''eu''] \<subseteq>\<^sub>m ?ans"
    by blast
  from stale_keys_returned[OF h2] have
    "execute (init ''deploy'') stale_ctx =
       (Some (Inr [''region'' \<mapsto> Str ''eu'']), set_state ''deploy'' (Dict Map.empty) stale_ctx)"
    by (simp add: init_def)
  with h e m show ?thesis by blast
qed

end
